theory Spec2Isabelle
  imports Main
begin

section \<open>Strings and paths\<close>

text \<open>
  The audio separation front end \<^verbatim>\<open>gradio_app.py\<close> is embedded here: the generator
  \<^verbatim>\<open>separate_with_progress\<close>, its nested \<^verbatim>\<open>QueueHandler\<close> and its
  nested \<^verbatim>\<open>worker\<close>.  Python's \<^verbatim>\<open>sep.join(xs)\<close> is \<open>join sep xs\<close>.
\<close>

definition NL :: string where
  "NL = [CHR 0x0A]"

fun join :: "string \<Rightarrow> string list \<Rightarrow> string" where
  "join sep [] = []"
| "join sep [x] = x"
| "join sep (x # y # zs) = x @ sep @ join sep (y # zs)"

text \<open>
  \<^verbatim>\<open>pathlib\<close> on a POSIX system: a path is a root (empty, one slash or exactly two
  slashes) and its parts; empty parts and \<^verbatim>\<open>.\<close> parts are dropped when a string
  is parsed.  \<open>joinpath\<close> is the operator \<^verbatim>\<open>/\<close>: a right operand that has a root
  replaces the left one.
\<close>

record path =
  root :: string
  parts :: "string list"

fun split_sep :: "string \<Rightarrow> string list" where
  "split_sep [] = [[]]"
| "split_sep (c # cs) =
     (if c = CHR ''/'' then [] # split_sep cs
      else (case split_sep cs of [] \<Rightarrow> [[c]] | p # ps \<Rightarrow> (c # p) # ps))"

definition splitroot :: "string \<Rightarrow> string \<times> string" where
  "splitroot p =
     (if take 1 p \<noteq> ''/'' then ([], p)
      else if take 1 (drop 1 p) \<noteq> ''/'' \<or> take 1 (drop 2 p) = ''/'' then (''/'', drop 1 p)
      else (take 2 p, drop 2 p))"

definition parse_path :: "string \<Rightarrow> path" where
  "parse_path s =
     (case splitroot s of
        (r, rel) \<Rightarrow> \<lparr>root = r, parts = filter (\<lambda>x. x \<noteq> [] \<and> x \<noteq> ''.'') (split_sep rel)\<rparr>)"

definition joinpath :: "path \<Rightarrow> string \<Rightarrow> path" where
  "joinpath p s =
     (let q = parse_path s
      in if root q \<noteq> [] then q else \<lparr>root = root p, parts = parts p @ parts q\<rparr>)"

definition is_absolute :: "path \<Rightarrow> bool" where
  "is_absolute p = (root p \<noteq> [])"

definition absolute :: "path \<Rightarrow> path \<Rightarrow> path" where
  "absolute cwd p =
     (if is_absolute p then p else \<lparr>root = root cwd, parts = parts cwd @ parts p\<rparr>)"

definition path_str :: "path \<Rightarrow> string" where
  "path_str p = (let s = root p @ join ''/'' (parts p) in if s = [] then ''.'' else s)"

text \<open>
  Where an absolute path leads once its \<^verbatim>\<open>..\<close> parts are followed: each one drops the
  part before it, and at the root it stays at the root.  Symbolic links are not followed.
\<close>

fun resolve :: "string list \<Rightarrow> string list \<Rightarrow> string list" where
  "resolve acc [] = acc"
| "resolve acc (p # ps) = (if p = ''..'' then resolve (butlast acc) ps else resolve (acc @ [p]) ps)"

text \<open>
  An absolute path lies under a directory when it has the directory's root and, with the
  \<^verbatim>\<open>..\<close> parts of both followed, the directory's parts first.
\<close>

definition rooted_under :: "path \<Rightarrow> path \<Rightarrow> bool" where
  "rooted_under d p =
     (root p = root d
      \<and> take (length (resolve [] (parts d))) (resolve [] (parts p)) = resolve [] (parts d))"

section \<open>Log records and the queue handler\<close>

definition SEPARATION_DONE :: string where
  "SEPARATION_DONE = ''__SEPARATION_DONE__''"

definition DEBUG :: nat where
  "DEBUG = 10"

definition INFO :: nat where
  "INFO = 20"

text \<open>
  A log record as the formatter sees it: the time rendered with the date format
  \<^verbatim>\<open>%H:%M:%S\<close>, the level, and the message, which is \<open>None\<close> when rendering the
  message raises.
\<close>

record log_record =
  asctime :: string
  levelname :: string
  levelno :: nat
  message :: "string option"

definition format_record :: "log_record \<Rightarrow> string option" where
  "format_record r =
     (case message r of
        None \<Rightarrow> None
      | Some m \<Rightarrow> Some (asctime r @ '' - '' @ levelname r @ '' - '' @ m))"

text \<open>\<^verbatim>\<open>QueueHandler.emit\<close>: a record that cannot be formatted is dropped.\<close>

definition emit :: "log_record \<Rightarrow> string list \<Rightarrow> string list" where
  "emit r q = (case format_record r of None \<Rightarrow> q | Some msg \<Rightarrow> q @ [msg])"

text \<open>The handler's level is \<^verbatim>\<open>DEBUG\<close>; the logger calls it for records at or above it.\<close>

definition handle :: "log_record \<Rightarrow> string list \<Rightarrow> string list" where
  "handle r q = (if DEBUG \<le> levelno r then emit r q else q)"

section \<open>One job\<close>

text \<open>
  What the Processor does when \<^verbatim>\<open>separator.separate\<close> is called: it logs some
  records and then returns a list of file names (or \<^verbatim>\<open>None\<close>), raises an
  \<^verbatim>\<open>Exception\<close> whose \<^verbatim>\<open>str\<close> is given, or raises a
  \<^verbatim>\<open>BaseException\<close> that is no \<^verbatim>\<open>Exception\<close> (such as \<^verbatim>\<open>SystemExit\<close>).
\<close>

datatype outcome =
    Returned "string list option"
  | RaisedException string
  | RaisedBaseException

record input =
  audio_filepath :: string
  is_file :: bool
  proc_events :: "log_record list"
  proc_outcome :: outcome
  workspace_dir :: "string list"
  cwd :: "string list"

definition BASE_OUTPUT_DIR :: "input \<Rightarrow> path" where
  "BASE_OUTPUT_DIR inp = joinpath \<lparr>root = ''/'', parts = workspace_dir inp\<rparr> ''output''"

text \<open>
  The worker thread: inside \<^verbatim>\<open>try\<close> with the records the Processor has still to
  log, at \<^verbatim>\<open>finally\<close> (the flag says that an exception is in flight), or finished
  (the flag says that the exception left the thread).
\<close>

datatype wpc =
    W_Try "log_record list" outcome
  | W_Finally bool
  | W_Dead bool

text \<open>
  The generator: not started; handler attached (line 74); about to call
  \<^verbatim>\<open>log_q.get\<close> (line 96); suspended at the \<^verbatim>\<open>yield\<close> of line 107; after
  \<^verbatim>\<open>queue.Empty\<close> (line 99); in the drain loop (line 110); suspended at the last
  \<^verbatim>\<open>yield\<close> (line 122 or 128); exhausted; ended by \<^verbatim>\<open>FileNotFoundError\<close> with
  its message; closed by the caller at a \<^verbatim>\<open>yield\<close>.
\<close>

datatype cpc =
    C_Start
  | C_Attached
  | C_Get
  | C_Yield
  | C_Check
  | C_Drain
  | C_FinalYield
  | C_Done
  | C_Raised string
  | C_Closed

record job =
  pc :: cpc
  log_q :: "string list option"
  attached :: bool
  result_files :: "string list option"
  result_error :: "string option"
  thread :: "wpc option"
  logs :: "string list"
  yields :: "(string \<times> string list option) list"

definition init :: job where
  "init = \<lparr>pc = C_Start, log_q = None, attached = False, result_files = None,
            result_error = None, thread = None, logs = [], yields = []\<rparr>"

definition put :: "string \<Rightarrow> job \<Rightarrow> job" where
  "put x s = s\<lparr>log_q := map_option (\<lambda>q. q @ [x]) (log_q s)\<rparr>"

text \<open>
  The Processor's logger hands a record to this job's handler: the logger's level is
  \<^verbatim>\<open>INFO\<close> (line 33), and the handler is called only while it is attached.
\<close>

definition dispatch :: "log_record \<Rightarrow> job \<Rightarrow> job" where
  "dispatch r s =
     (if INFO \<le> levelno r \<and> attached s
      then s\<lparr>log_q := map_option (handle r) (log_q s)\<rparr> else s)"

definition is_alive :: "job \<Rightarrow> bool" where
  "is_alive s = (case thread s of None \<Rightarrow> False | Some (W_Dead p) \<Rightarrow> False | Some w \<Rightarrow> True)"

text \<open>
  The statements of \<^verbatim>\<open>worker\<close> as they touch what the generator can see: the
  Processor logs a record, \<^verbatim>\<open>result["files"]\<close> is set (line 81),
  \<^verbatim>\<open>result["error"]\<close> is set (line 83), an exception that
  \<^verbatim>\<open>except Exception\<close> does not match passes the handler, and the sentinel is
  put on the queue (line 86).
\<close>

datatype action =
    Log log_record
  | SetFiles "string list option"
  | SetError string
  | Unwind
  | PutSentinel

text \<open>The statement the thread executes next and where it continues.\<close>

definition worker_action :: "wpc \<Rightarrow> (action \<times> wpc) option" where
  "worker_action w =
     (case w of
        W_Try (r # rs) out \<Rightarrow> Some (Log r, W_Try rs out)
      | W_Try [] (Returned fs) \<Rightarrow> Some (SetFiles fs, W_Finally False)
      | W_Try [] (RaisedException m) \<Rightarrow> Some (SetError m, W_Finally False)
      | W_Try [] RaisedBaseException \<Rightarrow> Some (Unwind, W_Finally True)
      | W_Finally p \<Rightarrow> Some (PutSentinel, W_Dead p)
      | W_Dead p \<Rightarrow> None)"

definition perform :: "action \<Rightarrow> job \<Rightarrow> job" where
  "perform a s =
     (case a of
        Log r \<Rightarrow> dispatch r s
      | SetFiles fs \<Rightarrow> s\<lparr>result_files := fs\<rparr>
      | SetError m \<Rightarrow> s\<lparr>result_error := Some m\<rparr>
      | Unwind \<Rightarrow> s
      | PutSentinel \<Rightarrow> put SEPARATION_DONE s)"

definition next_action :: "job \<Rightarrow> (action \<times> wpc) option" where
  "next_action s = (case thread s of None \<Rightarrow> None | Some w \<Rightarrow> worker_action w)"

definition worker_step :: "job \<Rightarrow> job" where
  "worker_step s =
     (case next_action s of
        None \<Rightarrow> s
      | Some (a, w) \<Rightarrow> perform a (s\<lparr>thread := Some w\<rparr>))"

text \<open>Python's truth value of \<^verbatim>\<open>result.get("error")\<close>: neither \<^verbatim>\<open>None\<close> nor empty.\<close>

definition truthy :: "string option \<Rightarrow> bool" where
  "truthy v = (case v of None \<Rightarrow> False | Some e \<Rightarrow> e \<noteq> [])"

definition files_or_empty :: "string list option \<Rightarrow> string list" where
  "files_or_empty v = (case v of None \<Rightarrow> [] | Some fs \<Rightarrow> if fs = [] then [] else fs)"

definition file_paths :: "input \<Rightarrow> string list \<Rightarrow> string list" where
  "file_paths inp fs =
     map (\<lambda>fname. path_str (absolute \<lparr>root = ''/'', parts = cwd inp\<rparr>
                                (joinpath (BASE_OUTPUT_DIR inp) fname))) fs"

text \<open>Lines 118 to 128: the last pair, from the log lines and the result dictionary.\<close>

definition final_pair ::
  "input \<Rightarrow> string list \<Rightarrow> string option \<Rightarrow> string list option \<Rightarrow> string \<times> string list option" where
  "final_pair inp lgs err fls =
     (let full_logs = join NL lgs
      in if truthy err
         then (full_logs @ NL @ ''ERROR: '' @ (case err of None \<Rightarrow> [] | Some e \<Rightarrow> e), None)
         else (full_logs, Some (file_paths inp (files_or_empty fls))))"

text \<open>One turn of the polling loop, from line 96.\<close>

definition poll :: "job \<Rightarrow> job" where
  "poll s =
     (case log_q s of
        None \<Rightarrow> s\<lparr>pc := C_Check\<rparr>
      | Some [] \<Rightarrow> s\<lparr>pc := C_Check\<rparr>
      | Some (line # q) \<Rightarrow>
          (if line = SEPARATION_DONE then s\<lparr>log_q := Some q, pc := C_Drain\<rparr>
           else s\<lparr>log_q := Some q, logs := logs s @ [line],
                  yields := yields s @ [(join NL (logs s @ [line]), None)], pc := C_Yield\<rparr>))"

definition queue_empty :: "job \<Rightarrow> bool" where
  "queue_empty s = (case log_q s of None \<Rightarrow> True | Some q \<Rightarrow> q = [])"

text \<open>One turn of the drain loop; when the queue is empty, lines 116 to 128.\<close>

definition drain :: "input \<Rightarrow> job \<Rightarrow> job" where
  "drain inp s =
     (case log_q s of
        Some (line # q) \<Rightarrow>
          (if line = SEPARATION_DONE then s\<lparr>log_q := Some q\<rparr>
           else s\<lparr>log_q := Some q, logs := logs s @ [line]\<rparr>)
      | _ \<Rightarrow>
          s\<lparr>attached := False,
            yields := yields s @ [final_pair inp (logs s) (result_error s) (result_files s)],
            pc := C_FinalYield\<rparr>)"

definition consumer_step :: "input \<Rightarrow> job \<Rightarrow> job" where
  "consumer_step inp s =
     (case pc s of
        C_Start \<Rightarrow>
          (if \<not> is_file inp
           then s\<lparr>pc := C_Raised (''Uploaded file not found: '' @ audio_filepath inp)\<rparr>
           else s\<lparr>log_q := Some [], attached := True, pc := C_Attached\<rparr>)
      | C_Attached \<Rightarrow>
          s\<lparr>result_files := None, result_error := None,
            thread := Some (W_Try (proc_events inp) (proc_outcome inp)),
            logs := [], pc := C_Get\<rparr>
      | C_Get \<Rightarrow> poll s
      | C_Yield \<Rightarrow> poll s
      | C_Check \<Rightarrow> (if \<not> is_alive s \<and> queue_empty s then s\<lparr>pc := C_Drain\<rparr> else s\<lparr>pc := C_Get\<rparr>)
      | C_Drain \<Rightarrow> drain inp s
      | C_FinalYield \<Rightarrow> s\<lparr>pc := C_Done\<rparr>
      | C_Done \<Rightarrow> s
      | C_Raised m \<Rightarrow> s
      | C_Closed \<Rightarrow> s)"

text \<open>
  The caller closes the generator (or drops it) where it is suspended: before its first
  step or at a \<^verbatim>\<open>yield\<close>.  The generator has no \<^verbatim>\<open>try\<close>, so nothing else runs.
\<close>

definition close :: "job \<Rightarrow> job" where
  "close s = (if pc s = C_Start \<or> pc s = C_Yield \<or> pc s = C_FinalYield then s\<lparr>pc := C_Closed\<rparr> else s)"

text \<open>
  What can happen to a job: its worker thread takes a step, its generator takes a step,
  its caller closes the generator, or the shared logger of the Processor dispatches a
  record that another caller of the Processor caused.
\<close>

datatype event = Worker | Consumer | Close | Foreign log_record

definition job_step :: "input \<Rightarrow> event \<Rightarrow> job \<Rightarrow> job" where
  "job_step inp e s =
     (case e of
        Worker \<Rightarrow> worker_step s
      | Consumer \<Rightarrow> consumer_step inp s
      | Close \<Rightarrow> close s
      | Foreign r \<Rightarrow> dispatch r s)"

definition run :: "input \<Rightarrow> event list \<Rightarrow> job \<Rightarrow> job" where
  "run inp sch s = fold (job_step inp) sch s"

text \<open>A schedule of a job that runs alone and is read to its end by its caller.\<close>

definition alone :: "event list \<Rightarrow> bool" where
  "alone sch = list_all (\<lambda>e. e = Worker \<or> e = Consumer) sch"

text \<open>The statements the worker thread has executed along a schedule.\<close>

fun worker_trace :: "input \<Rightarrow> event list \<Rightarrow> job \<Rightarrow> action list" where
  "worker_trace inp [] s = []"
| "worker_trace inp (e # es) s =
     (case (e, next_action s) of
        (Worker, Some (a, w)) \<Rightarrow> a # worker_trace inp es (job_step inp e s)
      | _ \<Rightarrow> worker_trace inp es (job_step inp e s))"

section \<open>Two jobs on the one Processor\<close>

text \<open>
  \<^verbatim>\<open>separator\<close> is one global object (line 194), so every job attaches its handler
  to the same logger.  A record that the Processor logs while it works for one job is
  handed to every attached handler, the other job's included.
\<close>

datatype sys_event = J1 event | J2 event

definition logged :: "event \<Rightarrow> job \<Rightarrow> log_record option" where
  "logged e s =
     (case (e, next_action s) of
        (Worker, Some (Log r, w)) \<Rightarrow> Some r
      | _ \<Rightarrow> None)"

definition others :: "log_record option \<Rightarrow> job \<Rightarrow> job" where
  "others v s = (case v of None \<Rightarrow> s | Some r \<Rightarrow> dispatch r s)"

definition sys_step :: "input \<Rightarrow> input \<Rightarrow> sys_event \<Rightarrow> job \<times> job \<Rightarrow> job \<times> job" where
  "sys_step i1 i2 e st =
     (case (e, st) of
        (J1 ev, (a, b)) \<Rightarrow> (job_step i1 ev a, others (logged ev a) b)
      | (J2 ev, (a, b)) \<Rightarrow> (others (logged ev b) a, job_step i2 ev b))"

definition sys_run :: "input \<Rightarrow> input \<Rightarrow> sys_event list \<Rightarrow> job \<times> job \<Rightarrow> job \<times> job" where
  "sys_run i1 i2 sch st = fold (sys_step i1 i2) sch st"

section \<open>Invariants and example inputs\<close>

text \<open>What holds of a job whose input file is missing, whatever happens to it.\<close>

definition not_started :: "input \<Rightarrow> job \<Rightarrow> bool" where
  "not_started inp s \<longleftrightarrow>
     (pc s = C_Start \<or> pc s = C_Closed
        \<or> pc s = C_Raised (''Uploaded file not found: '' @ audio_filepath inp))
     \<and> log_q s = None \<and> thread s = None \<and> \<not> attached s \<and> yields s = []"

definition inp_missing :: input where
  "inp_missing = \<lparr>audio_filepath = ''gone.wav'', is_file = False, proc_events = [],
     proc_outcome = Returned (Some [''a.wav'']), workspace_dir = [''srv''], cwd = [''srv'']\<rparr>"

text \<open>The invariant of a job along every schedule, whatever the events.\<close>

definition queue :: "job \<Rightarrow> string list" where
  "queue s = (case log_q s of None \<Rightarrow> [] | Some q \<Rightarrow> q)"

definition dead :: "job \<Rightarrow> bool" where
  "dead s = (case thread s of Some (W_Dead p) \<Rightarrow> True | _ \<Rightarrow> False)"

definition settled :: "input \<Rightarrow> bool \<Rightarrow> job \<Rightarrow> bool" where
  "settled inp p s =
     (case proc_outcome inp of
        Returned fs \<Rightarrow> result_files s = fs \<and> result_error s = None \<and> \<not> p
      | RaisedException m \<Rightarrow> result_files s = None \<and> result_error s = Some m \<and> \<not> p
      | RaisedBaseException \<Rightarrow> result_files s = None \<and> result_error s = None \<and> p)"

definition thread_ok :: "input \<Rightarrow> job \<Rightarrow> bool" where
  "thread_ok inp s =
     (case thread s of
        None \<Rightarrow> True
      | Some (W_Try evs out) \<Rightarrow>
          out = proc_outcome inp \<and> result_files s = None \<and> result_error s = None
          \<and> length evs \<le> length (proc_events inp)
      | Some (W_Finally p) \<Rightarrow> settled inp p s
      | Some (W_Dead p) \<Rightarrow> settled inp p s)"

definition pc_ok :: "job \<Rightarrow> bool" where
  "pc_ok s =
     (case pc s of
        C_Start \<Rightarrow> thread s = None \<and> \<not> attached s
      | C_Attached \<Rightarrow> thread s = None \<and> attached s \<and> log_q s \<noteq> None
      | C_Get \<Rightarrow> thread s \<noteq> None \<and> log_q s \<noteq> None
      | C_Yield \<Rightarrow> thread s \<noteq> None \<and> log_q s \<noteq> None
      | C_Check \<Rightarrow> thread s \<noteq> None \<and> log_q s \<noteq> None
      | C_Drain \<Rightarrow> dead s \<and> log_q s \<noteq> None
      | C_FinalYield \<Rightarrow> dead s \<and> \<not> attached s
      | C_Done \<Rightarrow> dead s \<and> \<not> attached s
      | C_Raised m \<Rightarrow> thread s = None \<and> \<not> attached s
      | C_Closed \<Rightarrow> True)"

definition stable :: "input \<Rightarrow> job \<Rightarrow> bool" where
  "stable inp s \<longleftrightarrow>
     pc_ok s \<and> thread_ok inp s
     \<and> (SEPARATION_DONE \<in> set (queue s) \<longrightarrow> dead s)
     \<and> SEPARATION_DONE \<notin> set (logs s)
     \<and> (attached s \<longrightarrow> log_q s \<noteq> None)"

text \<open>
  The statements of \<^verbatim>\<open>worker\<close> in the order of lines 79 to 86, and what is left of
  them at a point of the thread.
\<close>

definition outcome_action :: "outcome \<Rightarrow> action" where
  "outcome_action out =
     (case out of Returned fs \<Rightarrow> SetFiles fs | RaisedException m \<Rightarrow> SetError m
      | RaisedBaseException \<Rightarrow> Unwind)"

definition full_trace :: "input \<Rightarrow> action list" where
  "full_trace inp = map Log (proc_events inp) @ [outcome_action (proc_outcome inp), PutSentinel]"

definition rest_trace :: "wpc option \<Rightarrow> action list" where
  "rest_trace t =
     (case t of
        None \<Rightarrow> []
      | Some (W_Try evs out) \<Rightarrow> map Log evs @ [outcome_action out, PutSentinel]
      | Some (W_Finally p) \<Rightarrow> [PutSentinel]
      | Some (W_Dead p) \<Rightarrow> [])"

fun wsteps :: "wpc \<Rightarrow> nat" where
  "wsteps (W_Try evs out) = length evs + 2"
| "wsteps (W_Finally p) = 1"
| "wsteps (W_Dead p) = 0"

text \<open>Example inputs and states.\<close>

definition inp_disk_full :: input where
  "inp_disk_full = \<lparr>audio_filepath = ''song.mp3'', is_file = True,
     proc_events = [\<lparr>asctime = ''12:00:00'', levelname = ''INFO'', levelno = 20,
                     message = Some ''Loading model''\<rparr>],
     proc_outcome = RaisedException ''disk full'', workspace_dir = [''srv'', ''app''],
     cwd = [''srv'']\<rparr>"

definition job_mid :: job where
  "job_mid = init\<lparr>pc := C_Get, log_q := Some [SEPARATION_DONE, ''late'', SEPARATION_DONE],
                 attached := True, thread := Some (W_Dead False), logs := [''first'']\<rparr>"

definition inp_exit :: input where
  "inp_exit = \<lparr>audio_filepath = ''song.mp3'', is_file = True, proc_events = [],
     proc_outcome = RaisedBaseException, workspace_dir = [''srv'', ''app''], cwd = [''srv'']\<rparr>"

text \<open>
  The lines a job that runs alone gets on its queue from the records of its Processor,
  what the worker has still to put, and the pairs the polling loop yields for given lines.
\<close>

fun lines_of :: "log_record list \<Rightarrow> string list" where
  "lines_of [] = []"
| "lines_of (r # rs) = (if INFO \<le> levelno r then handle r [] else []) @ lines_of rs"

definition pending :: "wpc \<Rightarrow> string list" where
  "pending w =
     (case w of
        W_Try evs out \<Rightarrow> lines_of evs @ [SEPARATION_DONE]
      | W_Finally p \<Rightarrow> [SEPARATION_DONE]
      | W_Dead p \<Rightarrow> [])"

definition inter :: "string list \<Rightarrow> (string \<times> string list option) list" where
  "inter ls = map (\<lambda>k. (join NL (take k ls), None)) [1..<Suc (length ls)]"

definition outcome_error :: "outcome \<Rightarrow> string option" where
  "outcome_error out = (case out of RaisedException m \<Rightarrow> Some m | _ \<Rightarrow> None)"

definition outcome_files :: "outcome \<Rightarrow> string list option" where
  "outcome_files out = (case out of Returned fs \<Rightarrow> fs | _ \<Rightarrow> None)"

definition expected_yields :: "input \<Rightarrow> (string \<times> string list option) list" where
  "expected_yields inp =
     inter (lines_of (proc_events inp))
     @ [final_pair inp (lines_of (proc_events inp)) (outcome_error (proc_outcome inp))
          (outcome_files (proc_outcome inp))]"

definition polling :: "input \<Rightarrow> job \<Rightarrow> bool" where
  "polling inp s \<longleftrightarrow>
     attached s \<and> yields s = inter (logs s)
     \<and> (case thread s of
          None \<Rightarrow> False
        | Some w \<Rightarrow>
            logs s @ queue s @ pending w = lines_of (proc_events inp) @ [SEPARATION_DONE])"

definition exact :: "input \<Rightarrow> job \<Rightarrow> bool" where
  "exact inp s =
     (case pc s of
        C_Start \<Rightarrow> yields s = []
      | C_Attached \<Rightarrow> log_q s = Some [] \<and> yields s = []
      | C_Get \<Rightarrow> polling inp s
      | C_Yield \<Rightarrow> polling inp s
      | C_Check \<Rightarrow> polling inp s
      | C_Drain \<Rightarrow>
          queue s = [] \<and> logs s = lines_of (proc_events inp)
          \<and> yields s = inter (lines_of (proc_events inp))
      | C_FinalYield \<Rightarrow> yields s = expected_yields inp
      | C_Done \<Rightarrow> yields s = expected_yields inp
      | C_Raised m \<Rightarrow> False
      | C_Closed \<Rightarrow> False)"

text \<open>
  A bound on the generator steps still to come once the worker has finished, and a
  schedule that lets a job come to its end from wherever it is.
\<close>

definition cfuel :: "job \<Rightarrow> nat" where
  "cfuel s =
     (case pc s of
        C_Get \<Rightarrow> length (queue s) + 4
      | C_Yield \<Rightarrow> length (queue s) + 4
      | C_Check \<Rightarrow> (if queue s = [] then 3 else length (queue s) + 5)
      | C_Drain \<Rightarrow> length (queue s) + 2
      | C_FinalYield \<Rightarrow> 1
      | _ \<Rightarrow> 0)"

definition active :: "job \<Rightarrow> bool" where
  "active s \<longleftrightarrow> pc s = C_Get \<or> pc s = C_Yield \<or> pc s = C_Check \<or> pc s = C_Drain
     \<or> pc s = C_FinalYield \<or> pc s = C_Done"

definition finish :: "input \<Rightarrow> event list" where
  "finish inp =
     [Consumer, Consumer] @ replicate (length (proc_events inp) + 2) Worker
     @ replicate (length (proc_events inp) + 6) Consumer"



definition inp_quiet :: input where
  "inp_quiet = \<lparr>audio_filepath = ''song.mp3'', is_file = True, proc_events = [],
     proc_outcome = Returned (Some [''a.wav'']), workspace_dir = [''srv'', ''app''],
     cwd = [''srv'']\<rparr>"

definition inp_none :: input where
  "inp_none = \<lparr>audio_filepath = ''song.mp3'', is_file = True, proc_events = [],
     proc_outcome = Returned None, workspace_dir = [''srv'', ''app''], cwd = [''srv'']\<rparr>"

definition inp_abs :: input where
  "inp_abs = \<lparr>audio_filepath = ''song.mp3'', is_file = True, proc_events = [],
     proc_outcome = Returned (Some [''/tmp/out.wav'']), workspace_dir = [''srv'', ''app''],
     cwd = [''srv'']\<rparr>"


text \<open>
  What the second job sees of a run of both: its own events, and for each record that the
  Processor logs for the first job, the delivery of that record by the shared logger.
\<close>

fun view2 :: "input \<Rightarrow> input \<Rightarrow> sys_event list \<Rightarrow> job \<times> job \<Rightarrow> event list" where
  "view2 i1 i2 [] st = []"
| "view2 i1 i2 (e # es) st =
     (case e of
        J1 ev \<Rightarrow> (case logged ev (fst st) of None \<Rightarrow> [] | Some r \<Rightarrow> [Foreign r])
      | J2 ev \<Rightarrow> [ev])
     @ view2 i1 i2 es (sys_step i1 i2 e st)"

text \<open>An event that a job causes itself.\<close>

definition own :: "event \<Rightarrow> bool" where
  "own e = (case e of Foreign r \<Rightarrow> False | _ \<Rightarrow> True)"

text \<open>A run of the two jobs and nobody else: no record comes from a third caller.\<close>

definition only_jobs :: "sys_event list \<Rightarrow> bool" where
  "only_jobs sch = list_all (\<lambda>e. case e of J1 ev \<Rightarrow> own ev | J2 ev \<Rightarrow> own ev) sch"

text \<open>The records that a schedule of one job brings in from other callers.\<close>

definition foreign :: "event list \<Rightarrow> log_record list" where
  "foreign sch = concat (map (\<lambda>e. case e of Foreign r \<Rightarrow> [r] | _ \<Rightarrow> []) sch)"

text \<open>The records the Processor has still to log for a job.\<close>

definition remaining :: "job \<Rightarrow> log_record list" where
  "remaining s = (case thread s of Some (W_Try evs out) \<Rightarrow> evs | _ \<Rightarrow> [])"

text \<open>Every line in the queue or in the accumulated lines is the sentinel or one of \<open>X\<close>.\<close>

definition from_lines :: "string set \<Rightarrow> job \<Rightarrow> bool" where
  "from_lines X s \<longleftrightarrow>
     set (queue s) \<subseteq> insert SEPARATION_DONE X \<and> set (logs s) \<subseteq> X
     \<and> set (lines_of (remaining s)) \<subseteq> X"

text \<open>
  Two jobs at once: the first job's Processor logs a record while both handlers are
  attached, and the second job's generator then reads its queue.
\<close>

definition sch_bleed :: "sys_event list" where
  "sch_bleed = [J2 Consumer, J2 Consumer, J1 Consumer, J1 Consumer, J1 Worker, J2 Consumer]"

text \<open>
  What a step of the worker thread has appended to the job's queue, read off the queue
  before and after the step, and all of it along a schedule.
\<close>

definition pushed :: "job \<Rightarrow> string list" where
  "pushed s = drop (length (queue s)) (queue (worker_step s))"

fun worker_puts :: "input \<Rightarrow> event list \<Rightarrow> job \<Rightarrow> string list" where
  "worker_puts inp [] s = []"
| "worker_puts inp (e # es) s =
     (case e of Worker \<Rightarrow> pushed s | _ \<Rightarrow> []) @ worker_puts inp es (job_step inp e s)"

text \<open>What a statement of the worker puts on the queue of its job while the handler is attached.\<close>

definition puts_of :: "action \<Rightarrow> string list" where
  "puts_of a =
     (case a of Log r \<Rightarrow> lines_of [r] | PutSentinel \<Rightarrow> [SEPARATION_DONE] | _ \<Rightarrow> [])"

text \<open>While the worker thread runs, the handler is attached and the queue exists.\<close>

definition wired :: "job \<Rightarrow> bool" where
  "wired s \<longleftrightarrow> (thread s \<noteq> None \<and> \<not> dead s \<longrightarrow> attached s) \<and> (thread s \<noteq> None \<longrightarrow> log_q s \<noteq> None)"

text \<open>
  What a generator has yielded, by where it stands: nothing before the polling loop, one
  pair per accumulated line in the loop, no more pairs than that in the drain loop (the
  lines it appends are not yielded one by one), and after line 116 these pairs and the
  last one, made from all the lines and the result dictionary.
\<close>

definition shape :: "input \<Rightarrow> job \<Rightarrow> bool" where
  "shape inp s =
     (case pc s of
        C_Start \<Rightarrow> yields s = []
      | C_Attached \<Rightarrow> yields s = []
      | C_Get \<Rightarrow> yields s = inter (logs s)
      | C_Yield \<Rightarrow> yields s = inter (logs s)
      | C_Check \<Rightarrow> yields s = inter (logs s)
      | C_Drain \<Rightarrow>
          length (yields s) \<le> length (logs s)
          \<and> yields s = inter (take (length (yields s)) (logs s))
      | C_FinalYield \<Rightarrow>
          length (yields s) \<le> Suc (length (logs s))
          \<and> yields s = inter (take (length (yields s) - 1) (logs s))
                        @ [final_pair inp (logs s) (result_error s) (result_files s)]
      | C_Done \<Rightarrow>
          length (yields s) \<le> Suc (length (logs s))
          \<and> yields s = inter (take (length (yields s) - 1) (logs s))
                        @ [final_pair inp (logs s) (result_error s) (result_files s)]
      | C_Raised m \<Rightarrow> yields s = []
      | C_Closed \<Rightarrow> True)"

text \<open>A schedule in which the caller does not close the generator.\<close>

definition no_close :: "event list \<Rightarrow> bool" where
  "no_close sch = list_all (\<lambda>e. e \<noteq> Close) sch"

text \<open>
  A schedule that lets a job come to its end after any schedule: two steps of the
  generator (they start the thread if it has not been started), the steps the worker needs,
  and as many steps of the generator as the queue then has entries, and five, with no
  further record from another caller of the Processor.
\<close>

definition read_on :: "input \<Rightarrow> event list \<Rightarrow> event list" where
  "read_on inp sch =
     [Consumer, Consumer] @ replicate (length (proc_events inp) + 2) Worker
     @ replicate
         (length (queue (run inp (sch @ [Consumer, Consumer]
                                   @ replicate (length (proc_events inp) + 2) Worker) init)) + 5)
         Consumer"

text \<open>The generator has neither raised nor been closed.\<close>

definition going :: "job \<Rightarrow> bool" where
  "going s = (case pc s of C_Raised m \<Rightarrow> False | C_Closed \<Rightarrow> False | _ \<Rightarrow> True)"

text \<open>A record that another caller of the Processor causes.\<close>

definition other_record :: log_record where
  "other_record = \<lparr>asctime = ''12:00:01'', levelname = ''INFO'', levelno = 20,
                    message = Some ''Other job''\<rparr>"

text \<open>A job whose Processor returns a name that climbs out of the output directory.\<close>

definition inp_up :: input where
  "inp_up = \<lparr>audio_filepath = ''song.mp3'', is_file = True, proc_events = [],
     proc_outcome = Returned (Some [''../../etc/passwd'']), workspace_dir = [''srv'', ''app''],
     cwd = [''srv'']\<rparr>"

section \<open>Schedules\<close>

lemma run_Nil: "run inp [] s = s"
  by (simp add: run_def)

lemma run_Cons: "run inp (e # sch) s = run inp sch (job_step inp e s)"
  by (simp add: run_def)

lemma run_append: "run inp (a @ b) s = run inp b (run inp a s)"
  by (simp add: run_def)

lemma run_snoc: "run inp (sch @ [e]) s = job_step inp e (run inp sch s)"
  by (simp add: run_def)

lemma run_invariant:
  assumes "P s" and "\<And>e t. P t \<Longrightarrow> P (job_step inp e t)"
  shows "P (run inp sch s)"
  using assms(1)
proof (induction sch arbitrary: s)
  case Nil
  then show ?case by (simp add: run_Nil)
next
  case (Cons e sch)
  then show ?case by (simp add: run_Cons assms(2))
qed

section \<open>The sentinel is no log line\<close>

lemma sentinel_no_space: "CHR '' '' \<notin> set SEPARATION_DONE"
  by (simp add: SEPARATION_DONE_def)

lemma format_not_sentinel: "format_record r \<noteq> Some SEPARATION_DONE"
proof (cases "message r")
  case None
  then show ?thesis by (simp add: format_record_def)
next
  case (Some m)
  have "CHR '' '' \<in> set (asctime r @ '' - '' @ levelname r @ '' - '' @ m)" by simp
  then have "asctime r @ '' - '' @ levelname r @ '' - '' @ m \<noteq> SEPARATION_DONE"
    using sentinel_no_space by metis
  then show ?thesis using Some by (simp add: format_record_def)
qed

lemma handle_cases: "handle r q = q \<or> (\<exists>l. format_record r = Some l \<and> handle r q = q @ [l])"
  by (auto simp: handle_def emit_def split: option.splits)

lemma set_handle: "SEPARATION_DONE \<in> set (handle r q) \<longleftrightarrow> SEPARATION_DONE \<in> set q"
  using handle_cases[of r q] format_not_sentinel[of r] by auto

section \<open>A missing input file\<close>

lemma not_started_step:
  "\<not> is_file inp \<Longrightarrow> not_started inp s \<Longrightarrow> not_started inp (job_step inp e s)"
  by (cases e)
     (auto simp: not_started_def job_step_def worker_step_def next_action_def consumer_step_def
                 close_def dispatch_def)

text \<open>
  Claim C9.  When the input reference is no existing file, the first step of the generator
  raises \<^verbatim>\<open>FileNotFoundError\<close> with the message of line 48 and changes nothing
  else; along every schedule the queue is never created, no thread is started, no handler
  is attached and nothing is yielded; and once the generator has taken its first step it
  stays ended by that error.
\<close>

theorem missing_input_fails_before_any_work:
  assumes "\<not> is_file inp"
  shows "consumer_step inp init =
           init\<lparr>pc := C_Raised (''Uploaded file not found: '' @ audio_filepath inp)\<rparr>
       \<and> log_q (run inp sch init) = None
       \<and> thread (run inp sch init) = None
       \<and> \<not> attached (run inp sch init)
       \<and> yields (run inp sch init) = []
       \<and> pc (run inp (Consumer # sch) init) =
           C_Raised (''Uploaded file not found: '' @ audio_filepath inp)"
proof -
  have i: "not_started inp init" by (simp add: not_started_def init_def)
  have a: "not_started inp (run inp sch init)"
    by (rule run_invariant[where P = "not_started inp"]) (auto simp: i not_started_step assms)
  have s1: "consumer_step inp init =
      init\<lparr>pc := C_Raised (''Uploaded file not found: '' @ audio_filepath inp)\<rparr>"
    using assms by (simp add: consumer_step_def init_def)
  define t where "t = init\<lparr>pc := C_Raised (''Uploaded file not found: '' @ audio_filepath inp)\<rparr>"
  have r: "pc (job_step inp e u) = pc t" if "pc u = pc t" for e u
    using that
    by (cases e)
       (auto simp: t_def job_step_def worker_step_def next_action_def consumer_step_def
          close_def dispatch_def perform_def put_def
          split: option.splits action.splits prod.splits)
  have "pc (run inp sch t) = pc t"
    by (rule run_invariant[where P = "\<lambda>u. pc u = pc t"]) (auto simp: r)
  then have b: "pc (run inp (Consumer # sch) init) =
      C_Raised (''Uploaded file not found: '' @ audio_filepath inp)"
    by (simp add: run_Cons job_step_def s1 t_def)
  show ?thesis using a s1 b by (simp add: not_started_def)
qed

theorem missing_input_witness:
  "\<not> is_file inp_missing
   \<and> pc (run inp_missing [Consumer, Worker, Consumer] init)
       = C_Raised ''Uploaded file not found: gone.wav''
   \<and> log_q (run inp_missing [Worker, Consumer] init) = None
   \<and> thread (run inp_missing [Worker, Consumer] init) = None"
  using missing_input_fails_before_any_work[of inp_missing "[Worker, Consumer]"]
  by (simp add: inp_missing_def)

section \<open>What holds along every schedule\<close>

lemma stable_init: "stable inp init"
  by (simp add: stable_def pc_ok_def thread_ok_def init_def queue_def)

lemma dispatch_queue:
  "SEPARATION_DONE \<in> set (queue (dispatch r s)) \<longleftrightarrow> SEPARATION_DONE \<in> set (queue s)"
  by (cases "log_q s") (auto simp: dispatch_def queue_def set_handle)

lemma dispatch_frame:
  "pc (dispatch r s) = pc s" "thread (dispatch r s) = thread s" "logs (dispatch r s) = logs s"
  "yields (dispatch r s) = yields s" "attached (dispatch r s) = attached s"
  "result_files (dispatch r s) = result_files s" "result_error (dispatch r s) = result_error s"
  "log_q (dispatch r s) = None \<longleftrightarrow> log_q s = None"
  by (simp_all add: dispatch_def)

lemma stable_dispatch: "stable inp s \<Longrightarrow> stable inp (dispatch r s)"
proof -
  have a: "pc_ok (dispatch r s) = pc_ok s"
    by (simp add: pc_ok_def dead_def dispatch_frame split: cpc.splits)
  have b: "thread_ok inp (dispatch r s) = thread_ok inp s"
    by (simp add: thread_ok_def settled_def dispatch_frame split: option.splits wpc.splits outcome.splits)
  have c: "dead (dispatch r s) = dead s"
    by (simp add: dead_def dispatch_frame)
  show "stable inp s \<Longrightarrow> ?thesis"
    by (simp add: stable_def a b c dispatch_queue dispatch_frame)
qed

lemma stable_close: "stable inp s \<Longrightarrow> stable inp (close s)"
  by (auto simp: stable_def close_def pc_ok_def thread_ok_def queue_def dead_def settled_def
           split: cpc.splits option.splits wpc.splits outcome.splits)

lemma stable_worker: "stable inp s \<Longrightarrow> stable inp (worker_step s)"
proof (cases "next_action s")
  case None
  then show "stable inp s \<Longrightarrow> ?thesis" by (simp add: worker_step_def)
next
  case (Some aw)
  obtain a w where aw: "aw = (a, w)" by (cases aw)
  assume st: "stable inp s"
  show ?thesis
  proof (cases a)
    case (Log r)
    have "stable inp (s\<lparr>thread := Some w\<rparr>)"
      using st Some aw Log
      by (auto simp: stable_def next_action_def worker_action_def pc_ok_def thread_ok_def
                 queue_def dead_def
               split: cpc.splits option.splits wpc.splits outcome.splits list.splits)
    then show ?thesis using Some aw Log
      by (simp add: worker_step_def perform_def stable_dispatch)
  next
    case (SetFiles fs)
    then show ?thesis using st Some aw
      by (auto simp: stable_def worker_step_def perform_def next_action_def worker_action_def
                 pc_ok_def thread_ok_def queue_def dead_def settled_def
               split: cpc.splits option.splits wpc.splits outcome.splits list.splits)
  next
    case (SetError m)
    then show ?thesis using st Some aw
      by (auto simp: stable_def worker_step_def perform_def next_action_def worker_action_def
                 pc_ok_def thread_ok_def queue_def dead_def settled_def
               split: cpc.splits option.splits wpc.splits outcome.splits list.splits)
  next
    case Unwind
    then show ?thesis using st Some aw
      by (auto simp: stable_def worker_step_def perform_def next_action_def worker_action_def
                 pc_ok_def thread_ok_def queue_def dead_def settled_def
               split: cpc.splits option.splits wpc.splits outcome.splits list.splits)
  next
    case PutSentinel
    then show ?thesis using st Some aw
      by (auto simp: stable_def worker_step_def perform_def next_action_def worker_action_def
                 pc_ok_def thread_ok_def queue_def dead_def settled_def put_def
               split: cpc.splits option.splits wpc.splits outcome.splits list.splits)
  qed
qed

lemma stable_consumer: "stable inp s \<Longrightarrow> stable inp (consumer_step inp s)"
  by (cases "pc s")
     (auto simp: stable_def consumer_step_def poll_def drain_def pc_ok_def thread_ok_def
        queue_def dead_def settled_def is_alive_def queue_empty_def
       split: option.splits wpc.splits outcome.splits list.splits if_splits)

lemma stable_step: "stable inp s \<Longrightarrow> stable inp (job_step inp e s)"
  by (cases e) (simp_all add: job_step_def stable_worker stable_consumer stable_close stable_dispatch)

lemma stable_run: "stable inp (run inp sch init)"
  by (rule run_invariant[where P = "stable inp"]) (auto simp: stable_init stable_step)

lemma perform_frame:
  "pc (perform a s) = pc s" "thread (perform a s) = thread s" "logs (perform a s) = logs s"
  "yields (perform a s) = yields s" "attached (perform a s) = attached s"
  by (cases a; simp add: perform_def dispatch_frame put_def)+

lemma worker_frame:
  "pc (worker_step s) = pc s" "logs (worker_step s) = logs s"
  "yields (worker_step s) = yields s" "attached (worker_step s) = attached s"
  by (simp_all add: worker_step_def perform_frame split: option.splits prod.splits)

lemma worker_thread:
  "thread (worker_step s) = (case next_action s of None \<Rightarrow> thread s | Some (a, w) \<Rightarrow> Some w)"
  by (simp add: worker_step_def perform_frame split: option.splits prod.splits)

lemma consumer_thread:
  "thread (consumer_step inp s) =
     (if pc s = C_Attached then Some (W_Try (proc_events inp) (proc_outcome inp)) else thread s)"
  by (cases "pc s")
     (auto simp: consumer_step_def poll_def drain_def split: option.splits list.splits)

lemma close_frame:
  "thread (close s) = thread s" "attached (close s) = attached s" "logs (close s) = logs s"
  "yields (close s) = yields s" "log_q (close s) = log_q s"
  by (simp_all add: close_def)

lemma closed_step:
  "pc s = C_Closed \<Longrightarrow>
     pc (job_step inp e s) = C_Closed \<and> attached (job_step inp e s) = attached s"
  by (cases e)
     (simp_all add: job_step_def worker_frame consumer_step_def close_def dispatch_frame)

lemma closed_run:
  "pc s = C_Closed \<Longrightarrow> pc (run inp sch s) = C_Closed \<and> attached (run inp sch s) = attached s"
proof (induction sch arbitrary: s)
  case Nil
  then show ?case by (simp add: run_Nil)
next
  case (Cons e sch)
  then show ?case using closed_step[of s inp e] by (simp add: run_Cons)
qed

text \<open>
  Claim C8.  No line that the handler formats equals the sentinel; along every schedule
  (records of other callers and a closing caller included) the sentinel is never among
  the accumulated log lines; one turn of the polling loop and one turn of the drain loop
  never add it, whatever the queue holds; and the text the polling loop yields is the
  accumulated lines joined by newlines.
\<close>

theorem sentinel_never_a_log_line:
  "format_record r \<noteq> Some SEPARATION_DONE
   \<and> SEPARATION_DONE \<notin> set (logs (run inp sch init))
   \<and> (SEPARATION_DONE \<notin> set (logs s) \<longrightarrow>
        SEPARATION_DONE \<notin> set (logs (poll s)) \<and> SEPARATION_DONE \<notin> set (logs (drain inp s)))
   \<and> (yields (poll s) = yields s \<or> yields (poll s) = yields s @ [(join NL (logs (poll s)), None)])"
proof -
  have a: "SEPARATION_DONE \<notin> set (logs (run inp sch init))"
    using stable_run[of inp sch] by (simp add: stable_def)
  have b: "SEPARATION_DONE \<notin> set (logs s) \<longrightarrow>
        SEPARATION_DONE \<notin> set (logs (poll s)) \<and> SEPARATION_DONE \<notin> set (logs (drain inp s))"
    by (auto simp: poll_def drain_def split: option.splits list.splits)
  have c: "yields (poll s) = yields s \<or> yields (poll s) = yields s @ [(join NL (logs (poll s)), None)]"
    by (auto simp: poll_def split: option.splits list.splits)
  show ?thesis using a b c format_not_sentinel by blast
qed

theorem sentinel_never_a_log_line_witness:
  "SEPARATION_DONE \<notin> set (logs job_mid)
   \<and> logs (poll job_mid) = [''first'']
   \<and> logs (drain inp_disk_full (drain inp_disk_full (drain inp_disk_full (poll job_mid)))) = [''first'', ''late'']
   \<and> SEPARATION_DONE \<notin> set (logs (run inp_disk_full [Consumer, Consumer, Worker, Worker, Worker, Consumer, Consumer, Consumer] init))"
  using sentinel_never_a_log_line[of "hd (proc_events inp_disk_full)" inp_disk_full
      "[Consumer, Consumer, Worker, Worker, Worker, Consumer, Consumer, Consumer]" job_mid]
  by (simp add: job_mid_def init_def poll_def drain_def SEPARATION_DONE_def)

text \<open>
  Claim C6 asks that the handler be detached on every way out of the generator.  The code
  detaches it on the way through line 116 only: a caller that closes the generator at the
  \<^verbatim>\<open>yield\<close> of line 107 leaves the handler attached to the logger, and it stays
  attached whatever happens afterwards.
\<close>

theorem handler_left_attached_on_close:
  "pc (run inp_disk_full [Consumer, Consumer, Worker, Consumer, Close] init) = C_Closed
   \<and> attached (run inp_disk_full [Consumer, Consumer, Worker, Consumer, Close] init)
   \<and> attached (run inp_disk_full [Consumer, Consumer, Worker, Consumer, Close, Worker, Worker, Consumer, Consumer] init)"
  by (simp add: run_def job_step_def consumer_step_def worker_step_def next_action_def
        worker_action_def perform_def dispatch_def handle_def emit_def format_record_def put_def
        poll_def close_def init_def inp_disk_full_def INFO_def DEBUG_def SEPARATION_DONE_def)

text \<open>
  Where the detach of line 116 does happen: the handler is off when the generator is at
  its last \<^verbatim>\<open>yield\<close> or exhausted, it was never on when the generator ended by
  \<^verbatim>\<open>FileNotFoundError\<close>, and a closed generator keeps its handler as it was.
\<close>

lemma handler_detached_on_normal_end:
  "(pc (run inp sch init) = C_FinalYield \<or> pc (run inp sch init) = C_Done
      \<or> pc (run inp sch init) = C_Raised m \<longrightarrow> \<not> attached (run inp sch init))
   \<and> (attached (run inp sch init) \<longrightarrow> log_q (run inp sch init) \<noteq> None)
   \<and> (pc (run inp sch init) = C_Closed \<longrightarrow>
        pc (run inp (sch @ sch') init) = C_Closed
        \<and> attached (run inp (sch @ sch') init) = attached (run inp sch init))"
proof -
  have st: "stable inp (run inp sch init)" by (rule stable_run)
  have a: "pc (run inp sch init) = C_FinalYield \<or> pc (run inp sch init) = C_Done
      \<or> pc (run inp sch init) = C_Raised m \<longrightarrow> \<not> attached (run inp sch init)"
    using st by (auto simp: stable_def pc_ok_def)
  have c: "pc (run inp sch init) = C_Closed \<longrightarrow>
        pc (run inp (sch @ sch') init) = C_Closed
        \<and> attached (run inp (sch @ sch') init) = attached (run inp sch init)"
    using closed_run[of "run inp sch init" inp sch'] by (simp add: run_append)
  have b: "attached (run inp sch init) \<longrightarrow> log_q (run inp sch init) \<noteq> None"
    using st by (simp add: stable_def)
  show ?thesis using a b c by blast
qed

lemmas exec_defs =
  run_def job_step_def consumer_step_def worker_step_def next_action_def worker_action_def
  perform_def dispatch_def handle_def emit_def format_record_def put_def poll_def drain_def
  close_def is_alive_def queue_empty_def final_pair_def truthy_def files_or_empty_def
  file_paths_def init_def INFO_def DEBUG_def SEPARATION_DONE_def NL_def

lemma handler_detached_example:
  "pc (run inp_disk_full [Consumer, Consumer, Worker, Consumer, Close] init) = C_Closed
   \<and> pc (run inp_disk_full ([Consumer, Consumer, Worker, Consumer, Close] @ [Worker, Worker]) init)
        = C_Closed
   \<and> attached (run inp_disk_full ([Consumer, Consumer, Worker, Consumer, Close] @ [Worker, Worker]) init)
   \<and> pc (run inp_disk_full [Consumer, Consumer, Worker, Worker, Worker, Consumer, Consumer,
          Consumer] init) = C_FinalYield
   \<and> \<not> attached (run inp_disk_full [Consumer, Consumer, Worker, Worker, Worker, Consumer,
          Consumer, Consumer] init)"
  using handler_detached_on_normal_end[of inp_disk_full
          "[Consumer, Consumer, Worker, Consumer, Close]" "[]" "[Worker, Worker]"]
        handler_detached_on_normal_end[of inp_disk_full
          "[Consumer, Consumer, Worker, Worker, Worker, Consumer, Consumer, Consumer]" "[]" "[]"]
  by (simp add: exec_defs inp_disk_full_def)

section \<open>The worker thread\<close>

lemma worker_action_wsteps:
  "worker_action w = Some (a, w') \<Longrightarrow> wsteps w = Suc (wsteps w')"
  by (auto simp: worker_action_def split: wpc.splits list.splits outcome.splits)

lemma worker_action_None: "worker_action w = None \<longleftrightarrow> (\<exists>p. w = W_Dead p)"
  by (auto simp: worker_action_def split: wpc.splits list.splits outcome.splits)

lemma dead_iff: "dead s \<longleftrightarrow> (\<exists>p. thread s = Some (W_Dead p))"
  by (auto simp: dead_def split: option.splits wpc.splits)

lemma worker_finishes:
  "thread s = Some w \<Longrightarrow> wsteps w \<le> n \<Longrightarrow> dead (run inp (replicate n Worker) s)"
proof (induction n arbitrary: s w)
  case 0
  then show ?case by (cases w) (simp_all add: run_Nil dead_def)
next
  case (Suc n)
  show ?case
  proof (cases "worker_action w")
    case None
    then obtain p where "w = W_Dead p" using worker_action_None by blast
    then have "thread (worker_step s) = Some w" "wsteps w \<le> n"
      using Suc.prems by (simp_all add: worker_thread next_action_def worker_action_def)
    then show ?thesis using Suc.IH by (simp add: run_Cons job_step_def)
  next
    case (Some aw)
    obtain a w' where aw: "aw = (a, w')" by (cases aw)
    have "thread (worker_step s) = Some w'" "wsteps w' \<le> n"
      using Suc.prems Some aw worker_action_wsteps[of w a w']
      by (simp_all add: worker_thread next_action_def)
    then show ?thesis using Suc.IH by (simp add: run_Cons job_step_def)
  qed
qed

lemma thread_ok_wsteps:
  "thread_ok inp s \<Longrightarrow> thread s = Some w \<Longrightarrow> wsteps w \<le> length (proc_events inp) + 2"
  by (cases w) (auto simp: thread_ok_def)

lemma started_worker_finishes:
  assumes "thread (run inp sch init) \<noteq> None"
  shows "dead (run inp (sch @ replicate (length (proc_events inp) + 2) Worker) init)"
proof -
  obtain w where w: "thread (run inp sch init) = Some w" using assms by auto
  have "wsteps w \<le> length (proc_events inp) + 2"
    using stable_run[of inp sch] thread_ok_wsteps[of inp "run inp sch init" w] w
    by (simp add: stable_def)
  then have "dead (run inp (replicate (length (proc_events inp) + 2) Worker) (run inp sch init))"
    by (rule worker_finishes[OF w])
  then show ?thesis by (simp only: run_append)
qed

lemma dead_settled:
  "dead (run inp sch init) \<Longrightarrow> thread (run inp sch init) = Some (W_Dead p) \<Longrightarrow> settled inp p (run inp sch init)"
  using stable_run[of inp sch] by (simp add: stable_def thread_ok_def)

text \<open>
  Claim C3, as stated, fails for an exception that is no \<^verbatim>\<open>Exception\<close>:
  \<^verbatim>\<open>except Exception\<close> does not match it, so it leaves the thread after the
  \<^verbatim>\<open>finally\<close> block and both entries of the result dictionary stay \<^verbatim>\<open>None\<close>.
\<close>

theorem base_exception_escapes_worker:
  "proc_outcome inp_exit = RaisedBaseException
   \<and> thread (run inp_exit [Consumer, Consumer, Worker, Worker] init) = Some (W_Dead True)
   \<and> result_error (run inp_exit [Consumer, Consumer, Worker, Worker] init) = None
   \<and> result_files (run inp_exit [Consumer, Consumer, Worker, Worker] init) = None"
  by (simp add: exec_defs inp_exit_def)

text \<open>
  Claim C3, amended.  When the Processor raises an \<^verbatim>\<open>Exception\<close> whose
  \<^verbatim>\<open>str\<close> is \<open>m\<close>, then along every schedule a worker that has reached its
  \<^verbatim>\<open>finally\<close> block or has finished has \<^verbatim>\<open>result["error"]\<close> equal to
  \<open>m\<close>, has left \<^verbatim>\<open>result["files"]\<close> untouched and carries no exception out of the
  thread; and a started worker that is given one step per record and two more finishes in
  that state.
\<close>

theorem exception_recorded_as_failure:
  assumes "proc_outcome inp = RaisedException m"
  shows "(thread (run inp sch init) = Some (W_Finally p) \<or> thread (run inp sch init) = Some (W_Dead p)
            \<longrightarrow> \<not> p \<and> result_error (run inp sch init) = Some m
                \<and> result_files (run inp sch init) = None)
       \<and> (thread (run inp sch init) \<noteq> None \<longrightarrow>
            thread (run inp (sch @ replicate (length (proc_events inp) + 2) Worker) init)
              = Some (W_Dead False)
            \<and> result_error (run inp (sch @ replicate (length (proc_events inp) + 2) Worker) init)
              = Some m)"
proof -
  have a: "\<not> p \<and> result_error (run inp sch' init) = Some m \<and> result_files (run inp sch' init) = None"
    if "thread (run inp sch' init) = Some (W_Finally p) \<or> thread (run inp sch' init) = Some (W_Dead p)"
    for sch' p
    using stable_run[of inp sch'] that assms
    by (auto simp: stable_def thread_ok_def settled_def)
  have b: "thread (run inp (sch @ replicate (length (proc_events inp) + 2) Worker) init)
              = Some (W_Dead False)
            \<and> result_error (run inp (sch @ replicate (length (proc_events inp) + 2) Worker) init)
              = Some m"
    if h: "thread (run inp sch init) \<noteq> None"
  proof -
    obtain q where q: "thread (run inp (sch @ replicate (length (proc_events inp) + 2) Worker) init) = Some (W_Dead q)"
      using started_worker_finishes[OF h] dead_iff by blast
    then show ?thesis using a[of "sch @ replicate (length (proc_events inp) + 2) Worker" q] by simp
  qed
  show ?thesis using a[of sch p] b by blast
qed

theorem exception_recorded_witness:
  "proc_outcome inp_disk_full = RaisedException ''disk full''
   \<and> thread (run inp_disk_full [Consumer, Consumer, Worker] init) \<noteq> None
   \<and> thread (run inp_disk_full ([Consumer, Consumer, Worker] @ replicate (length (proc_events inp_disk_full) + 2) Worker) init)
        = Some (W_Dead False)
   \<and> result_error (run inp_disk_full ([Consumer, Consumer, Worker] @ replicate (length (proc_events inp_disk_full) + 2) Worker) init)
        = Some ''disk full''"
proof -
  have a: "proc_outcome inp_disk_full = RaisedException ''disk full''"
    by (simp add: inp_disk_full_def)
  have b: "thread (run inp_disk_full [Consumer, Consumer, Worker] init) \<noteq> None"
    by (simp add: exec_defs inp_disk_full_def)
  show ?thesis using a b exception_recorded_as_failure[OF a, of "[Consumer, Consumer, Worker]" False]
    by blast
qed


lemma worker_trace_snoc:
  "worker_trace inp (sch @ [e]) s =
     worker_trace inp sch s @
       (case (e, next_action (run inp sch s)) of (Worker, Some (a, w)) \<Rightarrow> [a] | _ \<Rightarrow> [])"
proof (induction sch arbitrary: s)
  case Nil
  show ?case by (cases e; cases "next_action s") (auto simp: run_Nil)
next
  case (Cons x sch)
  show ?case by (cases x; cases "next_action s") (auto simp: run_Cons Cons.IH)
qed

lemma rest_trace_step:
  "worker_action w = Some (a, w') \<Longrightarrow> rest_trace (Some w) = a # rest_trace (Some w')"
  by (auto simp: worker_action_def rest_trace_def outcome_action_def
           split: wpc.splits list.splits outcome.splits)

lemma trace_rest:
  "worker_trace inp sch init @ rest_trace (thread (run inp sch init)) =
     (if thread (run inp sch init) = None then [] else full_trace inp)"
proof (induction sch rule: rev_induct)
  case Nil
  then show ?case by (simp add: run_Nil init_def rest_trace_def)
next
  case (snoc e sch)
  define s where "s = run inp sch init"
  have st: "stable inp s" unfolding s_def by (rule stable_run)
  have ih: "worker_trace inp sch init @ rest_trace (thread s) =
     (if thread s = None then [] else full_trace inp)"
    using snoc by (simp add: s_def)
  show ?case
  proof (cases e)
    case Worker
    show ?thesis
    proof (cases "next_action s")
      case None
      then show ?thesis using ih Worker
        by (simp add: worker_trace_snoc run_snoc s_def[symmetric] job_step_def worker_thread)
    next
      case (Some aw)
      obtain a w' where aw: "aw = (a, w')" by (cases aw)
      obtain w where w: "thread s = Some w" "worker_action w = Some (a, w')"
        using Some aw by (auto simp: next_action_def split: option.splits)
      show ?thesis using ih Worker Some aw w rest_trace_step[OF w(2)]
        by (simp add: worker_trace_snoc run_snoc s_def[symmetric] job_step_def worker_thread)
    qed
  next
    case Consumer
    show ?thesis
    proof (cases "pc s = C_Attached")
      case True
      then have "thread s = None" using st by (simp add: stable_def pc_ok_def)
      then show ?thesis using ih Consumer True
        by (simp add: worker_trace_snoc run_snoc s_def[symmetric] job_step_def consumer_thread
              rest_trace_def full_trace_def)
    next
      case False
      then show ?thesis using ih Consumer
        by (simp add: worker_trace_snoc run_snoc s_def[symmetric] job_step_def consumer_thread)
    qed
  next
    case Close
    then show ?thesis using ih
      by (simp add: worker_trace_snoc run_snoc s_def[symmetric] job_step_def close_frame)
  next
    case (Foreign r)
    then show ?thesis using ih
      by (simp add: worker_trace_snoc run_snoc s_def[symmetric] job_step_def dispatch_frame)
  qed
qed

lemma count_full_trace: "count_list (full_trace inp) PutSentinel = 1"
proof -
  have "count_list (map Log evs) PutSentinel = 0" for evs
    by (induction evs) simp_all
  then show ?thesis
    by (simp add: full_trace_def outcome_action_def split: outcome.splits)
qed

lemma rest_has_sentinel:
  "thread s = Some w \<Longrightarrow> \<not> dead s \<Longrightarrow> PutSentinel \<in> set (rest_trace (thread s))"
  by (cases w) (simp_all add: rest_trace_def dead_def)

lemma trace_prefix:
  "worker_trace inp sch init = take (length (worker_trace inp sch init)) (full_trace inp)"
proof (cases "thread (run inp sch init) = None")
  case True
  then show ?thesis using trace_rest[of inp sch] by simp
next
  case False
  then have "worker_trace inp sch init @ rest_trace (thread (run inp sch init)) = full_trace inp"
    using trace_rest[of inp sch] by auto
  then show ?thesis by (metis append_eq_conv_conj)
qed

lemma trace_dead:
  assumes "dead (run inp sch init)"
  shows "worker_trace inp sch init = full_trace inp"
proof -
  obtain p where p: "thread (run inp sch init) = Some (W_Dead p)"
    using assms dead_iff by blast
  then show ?thesis using trace_rest[of inp sch] by (simp add: rest_trace_def)
qed

lemma trace_count: "count_list (worker_trace inp sch init) PutSentinel \<le> 1"
proof -
  have "count_list (take n xs) x \<le> count_list xs x" for n and xs :: "action list" and x
    by (metis append_take_drop_id count_list_append le_add1)
  then show ?thesis using trace_prefix[of inp sch] count_full_trace[of inp] by metis
qed

lemma trace_alive:
  assumes "\<not> dead (run inp sch init)"
  shows "PutSentinel \<notin> set (worker_trace inp sch init)"
proof (cases "thread (run inp sch init)")
  case None
  then show ?thesis using trace_rest[of inp sch] by simp
next
  case (Some w)
  have e: "worker_trace inp sch init @ rest_trace (thread (run inp sch init)) = full_trace inp"
    using trace_rest[of inp sch] Some by simp
  have "PutSentinel \<in> set (rest_trace (thread (run inp sch init)))"
    using rest_has_sentinel[OF Some assms] .
  then have "count_list (rest_trace (thread (run inp sch init))) PutSentinel \<noteq> 0"
    by (simp add: count_list_0_iff)
  moreover have "count_list (worker_trace inp sch init) PutSentinel
      + count_list (rest_trace (thread (run inp sch init))) PutSentinel = 1"
    using e count_full_trace[of inp] by (metis count_list_append)
  ultimately have "count_list (worker_trace inp sch init) PutSentinel = 0" by linarith
  then show ?thesis by (simp add: count_list_0_iff)
qed

section \<open>A job that runs alone\<close>

lemma handle_append: "handle r q = q @ handle r []"
  by (simp add: handle_def emit_def split: option.splits)

lemma sentinel_notin_lines: "SEPARATION_DONE \<notin> set (lines_of evs)"
  by (induction evs) (simp_all add: set_handle)

lemma inter_snoc: "inter (ls @ [x]) = inter ls @ [(join NL (ls @ [x]), None)]"
proof -
  have "map (\<lambda>k. (join NL (take k (ls @ [x])), None)) [1..<Suc (length ls)]
      = map (\<lambda>k. (join NL (take k ls), None :: string list option)) [1..<Suc (length ls)]"
    by (rule map_cong) auto
  then show ?thesis by (simp add: inter_def)
qed

lemma inter_Nil: "inter [] = []"
  by (simp add: inter_def)

lemma first_sentinel:
  "x \<notin> set a \<Longrightarrow> x \<notin> set b \<Longrightarrow> a @ x # r = b @ [x] \<Longrightarrow> a = b \<and> r = []"
proof (induction a arbitrary: b)
  case Nil
  then show ?case by (cases b) auto
next
  case (Cons y a)
  then show ?case by (cases b) auto
qed

lemma queue_simps:
  "queue (s\<lparr>log_q := Some q\<rparr>) = q"
  "queue (s\<lparr>pc := c\<rparr>) = queue s"
  "queue (s\<lparr>thread := t\<rparr>) = queue s"
  "queue (s\<lparr>logs := l\<rparr>) = queue s"
  "queue (s\<lparr>yields := y\<rparr>) = queue s"
  "queue (s\<lparr>attached := a\<rparr>) = queue s"
  "queue (s\<lparr>result_files := f\<rparr>) = queue s"
  "queue (s\<lparr>result_error := e\<rparr>) = queue s"
  by (simp_all add: queue_def)

lemma polling_worker:
  assumes "polling inp s" and "log_q s \<noteq> None"
  shows "polling inp (worker_step s)"
proof -
  obtain w where w: "thread s = Some w" using assms(1) by (auto simp: polling_def split: option.splits)
  obtain q where q: "log_q s = Some q" using assms(2) by auto
  have eq: "logs s @ q @ pending w = lines_of (proc_events inp) @ [SEPARATION_DONE]"
    using assms(1) w q by (simp add: polling_def queue_def)
  have att: "attached s" and y: "yields s = inter (logs s)" using assms(1) by (simp_all add: polling_def)
  show ?thesis
  proof (cases w)
    case (W_Try evs out)
    show ?thesis
    proof (cases evs)
      case Nil
      then show ?thesis using W_Try w q eq att y
        by (cases out)
           (simp_all add: polling_def worker_step_def next_action_def worker_action_def perform_def
              pending_def queue_def)
    next
      case (Cons r rs)
      have "queue (worker_step s) @ pending (W_Try rs out) = q @ pending w"
        using W_Try Cons w q att handle_append[of r q]
        by (simp add: worker_step_def next_action_def worker_action_def perform_def dispatch_def
              pending_def queue_def)
      moreover have "thread (worker_step s) = Some (W_Try rs out)"
        using W_Try Cons w by (simp add: worker_thread next_action_def worker_action_def)
      ultimately show ?thesis using eq att y
        by (simp add: polling_def worker_frame)
    qed
  next
    case (W_Finally p)
    then show ?thesis using w q eq att y
      by (simp add: polling_def worker_step_def next_action_def worker_action_def perform_def
            put_def pending_def queue_def)
  next
    case (W_Dead p)
    then show ?thesis using w assms(1)
      by (simp add: worker_step_def next_action_def worker_action_def)
  qed
qed

lemma worker_idle: "thread s = None \<or> dead s \<Longrightarrow> worker_step s = s"
  by (auto simp: worker_step_def next_action_def worker_action_def dead_def
           split: option.splits wpc.splits)

lemma exact_worker:
  assumes "stable inp s" and "exact inp s"
  shows "exact inp (worker_step s)"
proof -
  have ok: "pc_ok s" using assms(1) by (simp add: stable_def)
  show ?thesis
  proof (cases "pc s = C_Get \<or> pc s = C_Yield \<or> pc s = C_Check")
    case True
    then have "polling inp s" "log_q s \<noteq> None"
      using assms(2) ok by (auto simp: exact_def pc_ok_def)
    then have "polling inp (worker_step s)" by (rule polling_worker)
    then show ?thesis using True by (auto simp: exact_def worker_frame)
  next
    case False
    then have "thread s = None \<or> dead s \<or> pc s = C_Closed"
      using ok by (cases "pc s") (simp_all add: pc_ok_def)
    moreover have "pc s \<noteq> C_Closed" using assms(2) by (auto simp: exact_def)
    ultimately show ?thesis using assms(2) worker_idle by metis
  qed
qed

lemma settled_result:
  "settled inp p s \<Longrightarrow>
     result_error s = outcome_error (proc_outcome inp)
     \<and> result_files s = outcome_files (proc_outcome inp)"
  by (auto simp: settled_def outcome_error_def outcome_files_def split: outcome.splits)

lemma dead_result:
  assumes "stable inp s" and "dead s"
  shows "result_error s = outcome_error (proc_outcome inp)
     \<and> result_files s = outcome_files (proc_outcome inp)"
proof -
  obtain p where p: "thread s = Some (W_Dead p)" using assms(2) dead_iff by blast
  then have "settled inp p s" using assms(1) by (simp add: stable_def thread_ok_def)
  then show ?thesis by (rule settled_result)
qed

lemma polling_pc: "polling inp (s\<lparr>pc := c\<rparr>) = polling inp s"
  by (simp add: polling_def queue_def split: option.splits)

lemma polling_poll:
  assumes "polling inp s" and "SEPARATION_DONE \<notin> set (logs s)"
  shows "exact inp (poll s)"
proof (cases "queue s")
  case Nil
  then have "poll s = s\<lparr>pc := C_Check\<rparr>"
    by (auto simp: poll_def queue_def split: option.splits list.splits)
  then show ?thesis using assms(1) by (simp add: exact_def polling_pc)
next
  case (Cons x q')
  then have q: "log_q s = Some (x # q')" by (auto simp: queue_def split: option.splits)
  obtain w where w: "thread s = Some w" using assms(1) by (auto simp: polling_def split: option.splits)
  have eq: "logs s @ (x # q') @ pending w = lines_of (proc_events inp) @ [SEPARATION_DONE]"
    using assms(1) w Cons by (simp add: polling_def)
  have att: "attached s" and y: "yields s = inter (logs s)" using assms(1) by (simp_all add: polling_def)
  show ?thesis
  proof (cases "x = SEPARATION_DONE")
    case True
    have e2: "logs s @ SEPARATION_DONE # (q' @ pending w)
        = lines_of (proc_events inp) @ [SEPARATION_DONE]"
      using eq unfolding True by (simp only: append_Cons)
    have r: "logs s = lines_of (proc_events inp) \<and> q' @ pending w = []"
      using assms(2) sentinel_notin_lines e2 by (rule first_sentinel)
    then have q0: "q' = []" by simp
    have p: "poll s = s\<lparr>log_q := Some q', pc := C_Drain\<rparr>"
      using q True by (simp add: poll_def)
    show ?thesis unfolding p using r q0 y
      by (simp add: exact_def queue_def)
  next
    case False
    have p: "poll s = s\<lparr>log_q := Some q', logs := logs s @ [x],
                  yields := yields s @ [(join NL (logs s @ [x]), None)], pc := C_Yield\<rparr>"
      using q False by (simp add: poll_def)
    have e2: "(logs s @ [x]) @ q' @ pending w = lines_of (proc_events inp) @ [SEPARATION_DONE]"
      using eq by (simp only: append_Cons append_Nil append_assoc)
    show ?thesis unfolding p using w att y e2
      by (simp add: exact_def polling_def queue_def inter_snoc del: append_assoc)
  qed
qed

lemma polling_check:
  assumes "polling inp s" and "SEPARATION_DONE \<notin> set (logs s)"
  shows "is_alive s \<or> \<not> queue_empty s"
proof (rule ccontr)
  assume "\<not> (is_alive s \<or> \<not> queue_empty s)"
  then have na: "\<not> is_alive s" and qe: "queue_empty s" by auto
  obtain w where w: "thread s = Some w" using assms(1) by (auto simp: polling_def split: option.splits)
  have "pending w = []" using na w by (cases w) (simp_all add: is_alive_def pending_def)
  moreover have "queue s = []" using qe by (auto simp: queue_empty_def queue_def split: option.splits)
  ultimately have "logs s = lines_of (proc_events inp) @ [SEPARATION_DONE]"
    using assms(1) w by (simp add: polling_def)
  then show False using assms(2) by simp
qed

lemma exact_consumer:
  assumes "is_file inp" and "stable inp s" and "exact inp s"
  shows "exact inp (consumer_step inp s)"
proof -
  have ok: "pc_ok s" and nl: "SEPARATION_DONE \<notin> set (logs s)"
    using assms(2) by (simp_all add: stable_def)
  show ?thesis
  proof (cases "pc s")
    case C_Start
    then show ?thesis using assms by (simp add: consumer_step_def exact_def)
  next
    case C_Attached
    then show ?thesis using assms(3) ok
      by (simp add: consumer_step_def exact_def polling_def pc_ok_def queue_def pending_def inter_Nil)
  next
    case C_Get
    then show ?thesis using assms(3) nl polling_poll by (simp add: consumer_step_def exact_def)
  next
    case C_Yield
    then show ?thesis using assms(3) nl polling_poll by (simp add: consumer_step_def exact_def)
  next
    case C_Check
    then have p: "polling inp s" using assms(3) by (simp add: exact_def)
    then have "is_alive s \<or> \<not> queue_empty s" using nl by (rule polling_check)
    then have "consumer_step inp s = s\<lparr>pc := C_Get\<rparr>"
      using C_Check by (auto simp: consumer_step_def)
    then show ?thesis using p by (simp add: exact_def polling_pc)
  next
    case C_Drain
    then have d: "dead s" using ok by (simp add: pc_ok_def)
    have q: "queue s = []" and l: "logs s = lines_of (proc_events inp)"
      and y: "yields s = inter (lines_of (proc_events inp))"
      using assms(3) C_Drain by (simp_all add: exact_def)
    have "drain inp s = s\<lparr>attached := False,
            yields := yields s @ [final_pair inp (logs s) (result_error s) (result_files s)],
            pc := C_FinalYield\<rparr>"
      using q by (auto simp: drain_def queue_def split: option.splits list.splits)
    then show ?thesis using C_Drain l y dead_result[OF assms(2) d]
      by (simp add: consumer_step_def exact_def expected_yields_def)
  next
    case C_FinalYield
    then show ?thesis using assms(3) by (simp add: consumer_step_def exact_def)
  next
    case C_Done
    then show ?thesis using assms(3) by (simp add: consumer_step_def exact_def)
  next
    case (C_Raised m)
    then show ?thesis using assms(3) by (simp add: exact_def)
  next
    case C_Closed
    then show ?thesis using assms(3) by (simp add: exact_def)
  qed
qed

lemma exact_run:
  assumes "is_file inp" and "alone sch"
  shows "exact inp (run inp sch init)"
  using assms(2)
proof (induction sch rule: rev_induct)
  case Nil
  then show ?case by (simp add: run_Nil exact_def init_def)
next
  case (snoc e sch)
  then have ih: "exact inp (run inp sch init)" and e: "e = Worker \<or> e = Consumer"
    by (simp_all add: alone_def)
  have st: "stable inp (run inp sch init)" by (rule stable_run)
  show ?case using e exact_worker[OF st ih] exact_consumer[OF assms(1) st ih]
    by (auto simp: run_snoc job_step_def)
qed

section \<open>The generator comes to its end\<close>

lemma queue_empty_iff: "queue_empty s \<longleftrightarrow> queue s = []"
  by (simp add: queue_empty_def queue_def split: option.splits)

lemma is_alive_dead: "dead s \<Longrightarrow> \<not> is_alive s"
  by (auto simp: dead_def is_alive_def split: option.splits wpc.splits)

lemma consumer_dead: "dead s \<Longrightarrow> active s \<Longrightarrow> dead (consumer_step inp s)"
  by (auto simp: dead_def active_def consumer_thread split: option.splits wpc.splits)

lemma poll_fuel:
  "pc (poll s) \<in> {C_Check, C_Drain, C_Yield}
   \<and> (queue s = [] \<longrightarrow> pc (poll s) = C_Check \<and> queue (poll s) = [])
   \<and> (queue s \<noteq> [] \<longrightarrow> pc (poll s) \<noteq> C_Check \<and> Suc (length (queue (poll s))) = length (queue s))"
  by (auto simp: poll_def queue_def split: option.splits list.splits)

lemma drain_fuel:
  "(queue s = [] \<longrightarrow> pc (drain inp s) = C_FinalYield)
   \<and> (queue s \<noteq> [] \<longrightarrow> pc (drain inp s) = pc s \<and> Suc (length (queue (drain inp s))) = length (queue s))"
  by (auto simp: drain_def queue_def split: option.splits list.splits)

lemma consumer_fuel:
  assumes "dead s" and "active s" and "pc s \<noteq> C_Done"
  shows "active (consumer_step inp s) \<and> cfuel (consumer_step inp s) < cfuel s"
proof (cases "pc s")
  case C_Get
  then show ?thesis using poll_fuel[of s]
    by (cases "queue s = []") (auto simp: consumer_step_def active_def cfuel_def)
next
  case C_Yield
  then show ?thesis using poll_fuel[of s]
    by (cases "queue s = []") (auto simp: consumer_step_def active_def cfuel_def)
next
  case C_Check
  then show ?thesis using is_alive_dead[OF assms(1)]
    by (auto simp: consumer_step_def active_def cfuel_def queue_empty_iff queue_def)
next
  case C_Drain
  then show ?thesis using drain_fuel[of s inp]
    by (cases "queue s = []") (auto simp: consumer_step_def active_def cfuel_def)
next
  case C_FinalYield
  then show ?thesis by (simp add: consumer_step_def active_def cfuel_def)
qed (use assms in \<open>auto simp: active_def\<close>)

lemma consumer_finishes:
  "dead s \<Longrightarrow> active s \<Longrightarrow> cfuel s \<le> n \<Longrightarrow> pc (run inp (replicate n Consumer) s) = C_Done"
proof (induction n arbitrary: s)
  case 0
  then show ?case
    by (auto simp: run_Nil active_def cfuel_def split: if_splits)
next
  case (Suc n)
  show ?case
  proof (cases "pc s = C_Done")
    case True
    then have "consumer_step inp s = s" by (simp add: consumer_step_def)
    moreover have "cfuel s \<le> n" using True by (simp add: cfuel_def)
    ultimately show ?thesis using Suc by (simp add: run_Cons job_step_def)
  next
    case False
    have "active (consumer_step inp s) \<and> cfuel (consumer_step inp s) < cfuel s"
      using Suc.prems(1,2) False by (rule consumer_fuel)
    then show ?thesis
      using Suc.IH[of "consumer_step inp s"] Suc.prems consumer_dead[of s inp]
      by (simp add: run_Cons job_step_def)
  qed
qed

lemma length_lines_of: "length (lines_of evs) \<le> length evs"
proof (induction evs)
  case Nil
  then show ?case by simp
next
  case (Cons r evs)
  have "length (handle r []) \<le> 1" by (simp add: handle_def emit_def split: option.splits)
  then show ?case using Cons by simp
qed

lemma exact_fuel:
  assumes "exact inp s" and "dead s" and "active s"
  shows "cfuel s \<le> length (proc_events inp) + 6"
proof (cases "pc s = C_Get \<or> pc s = C_Yield \<or> pc s = C_Check")
  case True
  then have p: "polling inp s" using assms(1) by (auto simp: exact_def)
  then obtain w where "thread s = Some w"
    and "logs s @ queue s @ pending w = lines_of (proc_events inp) @ [SEPARATION_DONE]"
    by (auto simp: polling_def split: option.splits)
  then have "length (logs s) + length (queue s) + length (pending w)
      = length (lines_of (proc_events inp)) + 1"
    by (metis length_append length_append_singleton Suc_eq_plus1 add.assoc)
  then have "length (queue s) \<le> length (proc_events inp) + 1"
    using length_lines_of[of "proc_events inp"] by linarith
  then show ?thesis using True by (auto simp: cfuel_def)
next
  case False
  then show ?thesis using assms(1,3)
    by (cases "pc s") (auto simp: exact_def active_def cfuel_def)
qed

lemma consumer_pc_start:
  "is_file inp \<Longrightarrow> pc s = C_Start \<Longrightarrow> pc (consumer_step inp s) = C_Attached"
  by (simp add: consumer_step_def)

lemma consumer_pc_later:
  "pc s \<noteq> C_Start \<Longrightarrow> pc (consumer_step inp s) \<noteq> C_Start \<and> pc (consumer_step inp s) \<noteq> C_Attached"
  using poll_fuel[of s] drain_fuel[of s inp]
  by (cases "pc s"; cases "queue s = []") (auto simp: consumer_step_def)

lemma two_consumer_steps:
  assumes "is_file inp"
  shows "pc (consumer_step inp (consumer_step inp s)) \<noteq> C_Start
       \<and> pc (consumer_step inp (consumer_step inp s)) \<noteq> C_Attached"
proof (cases "pc s = C_Start")
  case True
  then have "pc (consumer_step inp s) \<noteq> C_Start" using consumer_pc_start[OF assms] by simp
  then show ?thesis by (rule consumer_pc_later)
next
  case False
  then have "pc (consumer_step inp s) \<noteq> C_Start" using consumer_pc_later by blast
  then show ?thesis by (rule consumer_pc_later)
qed

lemma worker_run_pc: "pc (run inp (replicate n Worker) s) = pc s"
  by (induction n arbitrary: s) (simp_all add: run_Nil run_Cons job_step_def worker_frame)

lemma alone_append: "alone (a @ b) \<longleftrightarrow> alone a \<and> alone b"
  by (simp add: alone_def)

lemma alone_finish: "alone (finish inp)"
  by (auto simp: alone_def finish_def list_all_iff)

lemma exact_active:
  "exact inp s \<Longrightarrow> pc s \<noteq> C_Start \<Longrightarrow> pc s \<noteq> C_Attached \<Longrightarrow> active s"
  by (cases "pc s") (auto simp: exact_def active_def)

lemma completes:
  assumes "is_file inp" and "alone sch"
  shows "pc (run inp (sch @ finish inp) init) = C_Done
       \<and> yields (run inp (sch @ finish inp) init) = expected_yields inp"
proof -
  define s1 where "s1 = run inp (sch @ [Consumer, Consumer]) init"
  define W where "W = replicate (length (proc_events inp) + 2) Worker"
  define s2 where "s2 = run inp ((sch @ [Consumer, Consumer]) @ W) init"
  have a1: "alone (sch @ [Consumer, Consumer])" using assms(2) by (simp add: alone_def)
  have a2: "alone ((sch @ [Consumer, Consumer]) @ W)"
    using a1 by (auto simp: alone_def W_def list_all_iff)
  have pc1: "pc s1 \<noteq> C_Start \<and> pc s1 \<noteq> C_Attached"
    using two_consumer_steps[OF assms(1), of "run inp sch init"]
    by (simp add: s1_def run_append run_Cons run_Nil job_step_def)
  have e1: "exact inp s1" unfolding s1_def using assms(1) a1 by (rule exact_run)
  have st1: "stable inp s1" unfolding s1_def by (rule stable_run)
  have "thread s1 \<noteq> None"
    using pc1 e1 st1
    by (cases "pc s1") (auto simp: exact_def stable_def pc_ok_def dead_iff)
  then have d2: "dead s2"
    unfolding s1_def s2_def W_def by (rule started_worker_finishes)
  have e2: "exact inp s2" unfolding s2_def using assms(1) a2 by (rule exact_run)
  have s21: "s2 = run inp W s1" by (simp only: s2_def s1_def run_append)
  have "pc s2 = pc s1" unfolding s21 W_def by (rule worker_run_pc)
  then have act: "active s2"
    using pc1 e2 exact_active[of inp s2] by simp
  have "cfuel s2 \<le> length (proc_events inp) + 6" using e2 d2 act by (rule exact_fuel)
  then have "pc (run inp (replicate (length (proc_events inp) + 6) Consumer) s2) = C_Done"
    using d2 act consumer_finishes by blast
  moreover have "run inp (sch @ finish inp) init
      = run inp (replicate (length (proc_events inp) + 6) Consumer) s2"
    by (simp only: s2_def finish_def W_def run_append append_assoc)
  ultimately have fin: "pc (run inp (sch @ finish inp) init) = C_Done" by simp
  have "exact inp (run inp (sch @ finish inp) init)"
    using assms alone_finish by (simp add: exact_run alone_append)
  then show ?thesis using fin by (simp add: exact_def)
qed

lemma ended_yields:
  assumes "is_file inp" and "alone sch"
    and "pc (run inp sch init) = C_FinalYield \<or> pc (run inp sch init) = C_Done"
  shows "yields (run inp sch init) = expected_yields inp"
  using exact_run[OF assms(1,2)] assms(3) by (auto simp: exact_def)

section \<open>The polling loop ends\<close>




lemma cfuel_bound: "cfuel s \<le> length (queue s) + 5"
  by (cases "pc s") (auto simp: cfuel_def)

section \<open>Artifact paths\<close>

lemma join_append:
  "a \<noteq> [] \<Longrightarrow> b \<noteq> [] \<Longrightarrow> join sep (a @ b) = join sep a @ sep @ join sep b"
proof (induction sep a rule: join.induct)
  case (1 sep)
  then show ?case by simp
next
  case (2 sep x)
  then show ?case by (cases b) simp_all
next
  case (3 sep x y zs)
  then show ?case by simp
qed

lemma base_output_dir:
  "BASE_OUTPUT_DIR inp = \<lparr>root = ''/'', parts = workspace_dir inp @ [''output'']\<rparr>"
  by (simp add: BASE_OUTPUT_DIR_def joinpath_def parse_path_def splitroot_def)

lemma joinpath_absolute: "is_absolute (joinpath (BASE_OUTPUT_DIR inp) f)"
  by (simp add: base_output_dir joinpath_def is_absolute_def Let_def)

lemma file_paths_eq:
  "file_paths inp fs = map (\<lambda>f. path_str (joinpath (BASE_OUTPUT_DIR inp) f)) fs"
  using joinpath_absolute by (simp add: file_paths_def absolute_def)

lemma relative_root: "take 1 f \<noteq> ''/'' \<Longrightarrow> root (parse_path f) = []"
  by (simp add: parse_path_def splitroot_def)

lemma relative_join:
  assumes "take 1 f \<noteq> ''/''"
  shows "joinpath (BASE_OUTPUT_DIR inp) f =
           \<lparr>root = ''/'', parts = workspace_dir inp @ [''output''] @ parts (parse_path f)\<rparr>"
  using relative_root[OF assms] by (simp add: joinpath_def base_output_dir Let_def)

lemma relative_str:
  assumes "take 1 f \<noteq> ''/''"
  shows "path_str (joinpath (BASE_OUTPUT_DIR inp) f) =
           path_str (BASE_OUTPUT_DIR inp)
           @ (if parts (parse_path f) = [] then [] else ''/'' @ join ''/'' (parts (parse_path f)))"
proof -
  have j: "path_str (joinpath (BASE_OUTPUT_DIR inp) f)
      = ''/'' @ join ''/'' ((workspace_dir inp @ [''output'']) @ parts (parse_path f))"
    unfolding relative_join[OF assms] by (simp add: path_str_def)
  have b: "path_str (BASE_OUTPUT_DIR inp) = ''/'' @ join ''/'' (workspace_dir inp @ [''output''])"
    unfolding base_output_dir by (simp add: path_str_def)
  show ?thesis
  proof (cases "parts (parse_path f) = []")
    case True
    then show ?thesis unfolding j b by simp
  next
    case False
    have "join ''/'' ((workspace_dir inp @ [''output'']) @ parts (parse_path f))
        = join ''/'' (workspace_dir inp @ [''output'']) @ ''/'' @ join ''/'' (parts (parse_path f))"
      using False by (intro join_append) simp_all
    then show ?thesis unfolding j b using False by simp
  qed
qed

section \<open>What the caller receives\<close>

lemma inter_shape: "length (inter ls) = length ls \<and> (\<forall>p\<in>set (inter ls). snd p = None)"
proof -
  have "length (inter ls) = length ls" by (simp add: inter_def del: upt_Suc)
  moreover have "\<forall>p\<in>set (inter ls). snd p = None" by (auto simp: inter_def simp del: upt_Suc)
  ultimately show ?thesis by blast
qed

lemma final_pair_error:
  "m \<noteq> [] \<Longrightarrow> final_pair inp ls (Some m) fls = (join NL ls @ NL @ ''ERROR: '' @ m, None)"
  by (simp add: final_pair_def truthy_def)

lemma final_pair_files:
  "final_pair inp ls None fls
     = (join NL ls, Some (map (\<lambda>f. path_str (joinpath (BASE_OUTPUT_DIR inp) f)) (files_or_empty fls)))"
  by (simp add: final_pair_def truthy_def file_paths_eq)



text \<open>
  Claim C10.  For a job (input file present, running alone) whose Processor returns
  \<^verbatim>\<open>None\<close> or an empty list, the generator comes to its end, no error is recorded,
  and the last pair is the joined log lines, with nothing appended, and an empty list of
  paths.
\<close>

theorem falsy_result_is_empty_success:
  assumes "is_file inp" and "alone sch"
    and "proc_outcome inp = Returned None \<or> proc_outcome inp = Returned (Some [])"
  shows "pc (run inp (sch @ finish inp) init) = C_Done
       \<and> yields (run inp (sch @ finish inp) init)
           = inter (lines_of (proc_events inp)) @ [(join NL (lines_of (proc_events inp)), Some [])]
       \<and> result_error (run inp (sch @ finish inp) init) = None
       \<and> (pc (run inp sch init) = C_FinalYield \<or> pc (run inp sch init) = C_Done \<longrightarrow>
            yields (run inp sch init)
              = inter (lines_of (proc_events inp))
                @ [(join NL (lines_of (proc_events inp)), Some [])])"
proof -
  have e: "expected_yields inp
      = inter (lines_of (proc_events inp)) @ [(join NL (lines_of (proc_events inp)), Some [])]"
    using assms(3)
    by (auto simp: expected_yields_def outcome_error_def outcome_files_def final_pair_files
          files_or_empty_def)
  have a: "pc (run inp (sch @ finish inp) init) = C_Done
       \<and> yields (run inp (sch @ finish inp) init) = expected_yields inp"
    using assms(1,2) by (rule completes)
  have st: "stable inp (run inp (sch @ finish inp) init)" by (rule stable_run)
  then have "dead (run inp (sch @ finish inp) init)" using a by (simp add: stable_def pc_ok_def)
  then have r: "result_error (run inp (sch @ finish inp) init) = None"
    using dead_result[OF st] assms(3) by (auto simp: outcome_error_def)
  have b: "pc (run inp sch init) = C_FinalYield \<or> pc (run inp sch init) = C_Done \<longrightarrow>
            yields (run inp sch init) = expected_yields inp"
    using ended_yields[OF assms(1,2)] by blast
  show ?thesis using a b r unfolding e by blast
qed

theorem falsy_result_witness:
  "is_file inp_none \<and> alone [Worker, Consumer]
   \<and> proc_outcome inp_none = Returned None
   \<and> pc (run inp_none ([Worker, Consumer] @ finish inp_none) init) = C_Done
   \<and> yields (run inp_none ([Worker, Consumer] @ finish inp_none) init) = [([], Some [])]"
proof -
  have h: "is_file inp_none" "alone [Worker, Consumer]"
    by (simp_all add: inp_none_def alone_def)
  have o: "proc_outcome inp_none = Returned None" by (simp add: inp_none_def)
  have l: "lines_of (proc_events inp_none) = []" by (simp add: inp_none_def)
  show ?thesis
    using h o falsy_result_is_empty_success[OF h, OF disjI1, OF o]
    unfolding l by (simp add: inter_Nil)
qed

section \<open>Two jobs on the one logger\<close>

lemma sys_run_Nil: "sys_run i1 i2 [] st = st"
  by (simp add: sys_run_def)

lemma sys_run_Cons: "sys_run i1 i2 (e # es) st = sys_run i1 i2 es (sys_step i1 i2 e st)"
  by (simp add: sys_run_def)

lemma sys_step_J1:
  "sys_step i1 i2 (J1 ev) st = (job_step i1 ev (fst st), others (logged ev (fst st)) (snd st))"
  by (cases st) (simp add: sys_step_def)

lemma sys_step_J2:
  "sys_step i1 i2 (J2 ev) st = (others (logged ev (snd st)) (fst st), job_step i2 ev (snd st))"
  by (cases st) (simp add: sys_step_def)

lemma others_as_run:
  "others v s = run inp (case v of None \<Rightarrow> [] | Some r \<Rightarrow> [Foreign r]) s"
  by (cases v) (simp_all add: others_def run_Nil run_Cons job_step_def)

lemma second_job_view:
  "snd (sys_run i1 i2 sch st) = run i2 (view2 i1 i2 sch st) (snd st)"
proof (induction sch arbitrary: st)
  case Nil
  then show ?case by (simp add: sys_run_Nil run_Nil)
next
  case (Cons e sch)
  show ?case
  proof (cases e)
    case (J1 ev)
    then show ?thesis using Cons[of "sys_step i1 i2 e st"]
      by (simp add: sys_run_Cons run_append sys_step_J1 others_as_run[of _ _ i2])
  next
    case (J2 ev)
    then show ?thesis using Cons[of "sys_step i1 i2 e st"]
      by (simp add: sys_run_Cons run_append sys_step_J2 run_Cons run_Nil)
  qed
qed

lemma logged_remaining: "logged ev s = Some r \<Longrightarrow> r \<in> set (remaining s)"
  by (auto simp: logged_def remaining_def next_action_def worker_action_def
           split: event.splits option.splits prod.splits action.splits wpc.splits list.splits
                  outcome.splits)

lemma remaining_step:
  "set (remaining s) \<subseteq> set (proc_events inp) \<Longrightarrow>
     set (remaining (job_step inp e s)) \<subseteq> set (proc_events inp)"
proof (cases e)
  case Worker
  assume a: "set (remaining s) \<subseteq> set (proc_events inp)"
  have "set (remaining (worker_step s)) \<subseteq> set (remaining s)"
    by (auto simp: remaining_def worker_thread next_action_def worker_action_def
             split: option.splits wpc.splits list.splits outcome.splits)
  then show ?thesis using a Worker by (auto simp: job_step_def)
next
  case Consumer
  assume a: "set (remaining s) \<subseteq> set (proc_events inp)"
  then show ?thesis using Consumer
    by (auto simp: job_step_def remaining_def consumer_thread split: option.splits wpc.splits)
next
  case Close
  assume "set (remaining s) \<subseteq> set (proc_events inp)"
  then show ?thesis using Close by (simp add: job_step_def remaining_def close_frame)
next
  case (Foreign r)
  assume "set (remaining s) \<subseteq> set (proc_events inp)"
  then show ?thesis using Foreign by (simp add: job_step_def remaining_def dispatch_frame)
qed

lemma remaining_others: "remaining (others v s) = remaining s"
  by (cases v) (simp_all add: others_def remaining_def dispatch_frame)

lemma foreign_simps:
  "foreign [] = []"
  "foreign (e # es) = (case e of Foreign r \<Rightarrow> [r] | _ \<Rightarrow> []) @ foreign es"
  "foreign (a @ b) = foreign a @ foreign b"
  by (simp_all add: foreign_def)

lemma view2_foreign:
  "only_jobs sch \<Longrightarrow> set (remaining (fst st)) \<subseteq> set (proc_events i1) \<Longrightarrow>
     set (foreign (view2 i1 i2 sch st)) \<subseteq> set (proc_events i1)"
proof (induction sch arbitrary: st)
  case Nil
  then show ?case by (simp add: foreign_simps)
next
  case (Cons e sch)
  have o: "only_jobs sch" using Cons.prems(1) by (simp add: only_jobs_def)
  show ?case
  proof (cases e)
    case (J1 ev)
    have n: "set (remaining (fst (sys_step i1 i2 e st))) \<subseteq> set (proc_events i1)"
      using Cons.prems(2) J1 by (simp add: sys_step_J1 remaining_step)
    have h: "set (foreign (case logged ev (fst st) of None \<Rightarrow> [] | Some r \<Rightarrow> [Foreign r]))
        \<subseteq> set (proc_events i1)"
      using logged_remaining[of ev "fst st"] Cons.prems(2)
      by (auto simp: foreign_simps split: option.splits)
    show ?thesis using Cons.IH[OF o n] h J1 by (simp add: foreign_simps)
  next
    case (J2 ev)
    have n: "set (remaining (fst (sys_step i1 i2 e st))) \<subseteq> set (proc_events i1)"
      using Cons.prems(2) J2 by (simp add: sys_step_J2 remaining_others)
    have "own ev" using Cons.prems(1) J2 by (simp add: only_jobs_def)
    then have "foreign [ev] = []" by (cases ev) (simp_all add: own_def foreign_simps)
    then show ?thesis using Cons.IH[OF o n] J2 by (simp add: foreign_simps)
  qed
qed

lemma set_lines_of: "set (lines_of rs) = (\<Union>r\<in>set rs. set (lines_of [r]))"
  by (induction rs) auto

lemma lines_of_mono: "set a \<subseteq> set b \<Longrightarrow> set (lines_of a) \<subseteq> set (lines_of b)"
  using set_lines_of[of a] set_lines_of[of b] by blast

lemma handle_lines: "INFO \<le> levelno r \<Longrightarrow> handle r [] = lines_of [r]"
  by simp

lemma dispatch_queue_lines:
  "set (queue (dispatch r s)) \<subseteq> set (queue s) \<union> set (lines_of [r])"
proof (cases "log_q s")
  case None
  then show ?thesis by (simp add: dispatch_def queue_def)
next
  case (Some q)
  then show ?thesis using handle_append[of r q] by (auto simp: dispatch_def queue_def)
qed

lemma from_lines_dispatch:
  assumes "from_lines X s" and "set (lines_of [r]) \<subseteq> X"
  shows "from_lines X (dispatch r s)"
proof -
  have "remaining (dispatch r s) = remaining s" by (simp add: remaining_def dispatch_frame)
  then show ?thesis using assms dispatch_queue_lines[of r s]
    by (auto simp: from_lines_def dispatch_frame)
qed

lemma from_lines_worker:
  assumes "from_lines X s"
  shows "from_lines X (worker_step s)"
proof (cases "next_action s")
  case None
  then show ?thesis using assms by (simp add: worker_step_def)
next
  case (Some aw)
  obtain a w where aw: "aw = (a, w)" by (cases aw)
  obtain w0 where w0: "thread s = Some w0" "worker_action w0 = Some (a, w)"
    using Some aw by (auto simp: next_action_def split: option.splits)
  show ?thesis
  proof (cases a)
    case (Log r)
    then obtain rs out where t: "w0 = W_Try (r # rs) out" "w = W_Try rs out"
      using w0(2)
      by (auto simp: worker_action_def split: wpc.splits list.splits outcome.splits)
    have r: "set (lines_of [r]) \<subseteq> X" and rs: "set (lines_of rs) \<subseteq> X"
      using assms w0(1) t(1) by (auto simp: from_lines_def remaining_def)
    have "from_lines X (s\<lparr>thread := Some w\<rparr>)"
      using assms rs t(2) by (simp add: from_lines_def remaining_def queue_def)
    then show ?thesis using Some aw Log r
      by (simp add: worker_step_def perform_def from_lines_dispatch)
  next
    case (SetFiles fs)
    then have "remaining (worker_step s) = []"
      using w0 by (auto simp: remaining_def worker_thread next_action_def worker_action_def
          split: wpc.splits list.splits outcome.splits)
    then show ?thesis using assms Some aw SetFiles
      by (simp add: from_lines_def worker_frame worker_step_def perform_def queue_def)
  next
    case (SetError m)
    then have "remaining (worker_step s) = []"
      using w0 by (auto simp: remaining_def worker_thread next_action_def worker_action_def
          split: wpc.splits list.splits outcome.splits)
    then show ?thesis using assms Some aw SetError
      by (simp add: from_lines_def worker_frame worker_step_def perform_def queue_def)
  next
    case Unwind
    then have "remaining (worker_step s) = []"
      using w0 by (auto simp: remaining_def worker_thread next_action_def worker_action_def
          split: wpc.splits list.splits outcome.splits)
    then show ?thesis using assms Some aw Unwind
      by (simp add: from_lines_def worker_frame worker_step_def perform_def queue_def)
  next
    case PutSentinel
    then have "remaining (worker_step s) = []"
      using w0 by (auto simp: remaining_def worker_thread next_action_def worker_action_def
          split: wpc.splits list.splits outcome.splits)
    then show ?thesis using assms Some aw PutSentinel
      by (auto simp: from_lines_def worker_frame worker_step_def perform_def queue_def put_def
            split: option.splits)
  qed
qed

lemma from_lines_consumer:
  assumes "from_lines X s" and "set (lines_of (proc_events inp)) \<subseteq> X"
  shows "from_lines X (consumer_step inp s)"
proof (cases "pc s = C_Attached")
  case True
  then show ?thesis using assms
    by (simp add: consumer_step_def from_lines_def remaining_def queue_def)
next
  case False
  then have r: "remaining (consumer_step inp s) = remaining s"
    by (simp add: remaining_def consumer_thread)
  have "set (queue (consumer_step inp s)) \<subseteq> set (queue s)
      \<and> set (logs (consumer_step inp s)) \<subseteq> set (logs s) \<union> (set (queue s) - {SEPARATION_DONE})"
    using False
    by (cases "pc s")
       (auto simp: consumer_step_def poll_def drain_def queue_def
             split: option.splits list.splits if_splits)
  then show ?thesis using assms(1) r by (auto simp: from_lines_def)
qed

lemma from_lines_run:
  "from_lines X s \<Longrightarrow> set (lines_of (proc_events inp)) \<subseteq> X \<Longrightarrow>
   set (lines_of (foreign sch)) \<subseteq> X \<Longrightarrow> from_lines X (run inp sch s)"
proof (induction sch arbitrary: s)
  case Nil
  then show ?case by (simp add: run_Nil)
next
  case (Cons e sch)
  have f: "set (lines_of (foreign sch)) \<subseteq> X"
    using Cons.prems(3) set_lines_of[of "foreign (e # sch)"] set_lines_of[of "foreign sch"]
    by (auto simp: foreign_simps)
  have "from_lines X (job_step inp e s)"
  proof (cases e)
    case Worker
    then show ?thesis using Cons.prems(1) by (simp add: job_step_def from_lines_worker)
  next
    case Consumer
    then show ?thesis using Cons.prems(1,2) by (simp add: job_step_def from_lines_consumer)
  next
    case Close
    then show ?thesis using Cons.prems(1)
      by (simp add: job_step_def from_lines_def remaining_def close_frame queue_def)
  next
    case (Foreign r)
    then have "set (lines_of [r]) \<subseteq> X"
      using Cons.prems(3) set_lines_of[of "foreign (e # sch)"] by (auto simp: foreign_simps)
    then show ?thesis using Cons.prems(1) Foreign by (simp add: job_step_def from_lines_dispatch)
  qed
  then show ?case using Cons.IH[OF _ Cons.prems(2) f] by (simp add: run_Cons)
qed

lemma from_lines_init: "from_lines X init"
  by (simp add: from_lines_def init_def queue_def remaining_def)

text \<open>
  Claim C5, as stated, fails.  Both handlers hang on the one logger of the global
  \<^verbatim>\<open>separator\<close>, so a record that the Processor logs while it works for the first
  job is formatted by the second job's handler too: the second job, whose own Processor
  run logs nothing, accumulates and yields the first job's line (and the first job has
  the line on its own queue as well).
\<close>

theorem first_job_line_in_second_job_text:
  "proc_events inp_quiet = []
   \<and> logs (snd (sys_run inp_disk_full inp_quiet sch_bleed (init, init)))
       = [''12:00:00 - INFO - Loading model'']
   \<and> yields (snd (sys_run inp_disk_full inp_quiet sch_bleed (init, init)))
       = [(''12:00:00 - INFO - Loading model'', None)]
   \<and> log_q (fst (sys_run inp_disk_full inp_quiet sch_bleed (init, init)))
       = Some [''12:00:00 - INFO - Loading model'']"
  by (simp add: sch_bleed_def sys_run_def sys_step_def others_def logged_def exec_defs
        inp_disk_full_def inp_quiet_def)

text \<open>
  Claim C5, amended.  In every run of two jobs and nobody else, the second job goes through
  exactly the states of a single job that runs its own events and is handed, by its own
  handler, the records that the Processor logs for the first job: nothing else of the first
  job reaches it (not its sentinel, not its outcome, not what its handler put on the first
  job's queue).  So the second job's accumulated lines are formatted records that the
  Processor logged for one of the two jobs, and never a sentinel.
\<close>

theorem second_job_sees_only_logged_records:
  assumes "only_jobs sch"
  shows "snd (sys_run i1 i2 sch (init, init)) = run i2 (view2 i1 i2 sch (init, init)) init
       \<and> set (foreign (view2 i1 i2 sch (init, init))) \<subseteq> set (proc_events i1)
       \<and> set (logs (snd (sys_run i1 i2 sch (init, init))))
           \<subseteq> set (lines_of (proc_events i2)) \<union> set (lines_of (proc_events i1))
       \<and> SEPARATION_DONE \<notin> set (logs (snd (sys_run i1 i2 sch (init, init))))"
proof -
  let ?v = "view2 i1 i2 sch (init, init)"
  let ?X = "set (lines_of (proc_events i2)) \<union> set (lines_of (proc_events i1))"
  have a: "snd (sys_run i1 i2 sch (init, init)) = run i2 ?v init"
    using second_job_view[of i1 i2 sch "(init, init)"] by simp
  have b: "set (foreign ?v) \<subseteq> set (proc_events i1)"
    using view2_foreign[OF assms, of "(init, init)" i1 i2]
    by (simp add: remaining_def init_def)
  have "set (lines_of (foreign ?v)) \<subseteq> ?X" using lines_of_mono[OF b] by blast
  then have "from_lines ?X (run i2 ?v init)"
    using from_lines_run[OF from_lines_init, of i2 ?X ?v] by simp
  then have c: "set (logs (run i2 ?v init)) \<subseteq> ?X" by (simp add: from_lines_def)
  have d: "SEPARATION_DONE \<notin> set (logs (run i2 ?v init))"
    using stable_run[of i2 ?v] by (simp add: stable_def)
  show ?thesis using a b c d by simp
qed

theorem second_job_witness:
  "only_jobs sch_bleed
   \<and> set (logs (snd (sys_run inp_disk_full inp_quiet sch_bleed (init, init))))
       \<subseteq> set (lines_of (proc_events inp_quiet)) \<union> set (lines_of (proc_events inp_disk_full))
   \<and> lines_of (proc_events inp_disk_full) = [''12:00:00 - INFO - Loading model'']"
proof -
  have h: "only_jobs sch_bleed" by (simp add: only_jobs_def sch_bleed_def own_def)
  have l: "lines_of (proc_events inp_disk_full) = [''12:00:00 - INFO - Loading model'']"
    by (simp add: inp_disk_full_def handle_def emit_def format_record_def INFO_def DEBUG_def)
  show ?thesis
    using h l second_job_sees_only_logged_records[OF h, of inp_disk_full inp_quiet] by blast
qed

section \<open>What the worker puts on the queue\<close>

lemma dead_worker_step: "dead (worker_step s) \<Longrightarrow> thread s \<noteq> None"
  by (auto simp: dead_def worker_thread next_action_def split: option.splits)

lemma perform_log_q: "log_q (perform a s) = None \<longleftrightarrow> log_q s = None"
  by (cases a) (simp_all add: perform_def dispatch_frame put_def)

lemma worker_log_q: "log_q (worker_step s) = None \<longleftrightarrow> log_q s = None"
  by (simp add: worker_step_def perform_log_q split: option.splits prod.splits)

lemma wired_worker: "wired s \<Longrightarrow> wired (worker_step s)"
proof -
  assume w: "wired s"
  have t: "thread (worker_step s) \<noteq> None \<longleftrightarrow> thread s \<noteq> None"
    by (auto simp: worker_thread next_action_def split: option.splits prod.splits)
  have d: "dead s \<Longrightarrow> dead (worker_step s)"
    by (simp add: worker_idle)
  show ?thesis using w t d by (auto simp: wired_def worker_frame worker_log_q)
qed

lemma wired_consumer:
  assumes "pc_ok s" and "wired s"
  shows "wired (consumer_step inp s)"
proof (cases "pc s")
  case C_Drain
  then have d: "dead s" using assms(1) by (simp add: pc_ok_def)
  then have "dead (consumer_step inp s)" using C_Drain by (simp add: consumer_dead active_def)
  moreover have "log_q (consumer_step inp s) \<noteq> None"
    using C_Drain assms(1)
    by (auto simp: pc_ok_def consumer_step_def drain_def split: option.splits list.splits)
  ultimately show ?thesis by (simp add: wired_def)
next
  case C_Get
  then show ?thesis using assms
    by (auto simp: wired_def pc_ok_def consumer_step_def poll_def dead_def
          split: option.splits list.splits)
next
  case C_Yield
  then show ?thesis using assms
    by (auto simp: wired_def pc_ok_def consumer_step_def poll_def dead_def
          split: option.splits list.splits)
qed (use assms in \<open>auto simp: wired_def pc_ok_def consumer_step_def dead_def\<close>)

lemma wired_step: "stable inp s \<Longrightarrow> wired s \<Longrightarrow> wired (job_step inp e s)"
proof (cases e)
  case Worker
  then show "wired s \<Longrightarrow> ?thesis" by (simp add: job_step_def wired_worker)
next
  case Consumer
  then show "stable inp s \<Longrightarrow> wired s \<Longrightarrow> ?thesis"
    by (simp add: job_step_def wired_consumer stable_def)
next
  case Close
  then show "wired s \<Longrightarrow> ?thesis" by (simp add: job_step_def wired_def dead_def close_frame)
next
  case (Foreign r)
  then show "wired s \<Longrightarrow> ?thesis" by (simp add: job_step_def wired_def dead_def dispatch_frame)
qed

lemma wired_run: "wired (run inp sch init)"
proof (induction sch rule: rev_induct)
  case Nil
  then show ?case by (simp add: run_Nil wired_def init_def)
next
  case (snoc e sch)
  then show ?case using stable_run[of inp sch] by (simp add: run_snoc wired_step)
qed

lemma dispatch_queue_eq:
  "queue (dispatch r s) =
     queue s @ (if INFO \<le> levelno r \<and> attached s \<and> log_q s \<noteq> None then handle r [] else [])"
proof (cases "log_q s")
  case None
  then show ?thesis by (simp add: dispatch_def queue_def)
next
  case (Some q)
  then show ?thesis using handle_append[of r q] by (simp add: dispatch_def queue_def)
qed

lemma put_queue_eq: "queue (put x s) = queue s @ (if log_q s \<noteq> None then [x] else [])"
  by (cases "log_q s") (simp_all add: put_def queue_def)

lemma perform_appends: "\<exists>xs. queue (perform a s) = queue s @ xs"
proof (cases a)
  case (Log r)
  then show ?thesis by (simp add: perform_def dispatch_queue_eq)
next
  case PutSentinel
  then show ?thesis by (simp add: perform_def put_queue_eq)
qed (simp_all add: perform_def queue_def)

lemma worker_appends: "queue (worker_step s) = queue s @ pushed s"
proof -
  have "\<exists>xs. queue (worker_step s) = queue s @ xs"
  proof (cases "next_action s")
    case None
    then show ?thesis by (simp add: worker_step_def)
  next
    case (Some aw)
    obtain a w where aw: "aw = (a, w)" by (cases aw)
    have "queue (s\<lparr>thread := Some w\<rparr>) = queue s" by (simp add: queue_def)
    then show ?thesis using Some aw perform_appends[of a "s\<lparr>thread := Some w\<rparr>"]
      by (simp add: worker_step_def)
  qed
  then show ?thesis by (auto simp: pushed_def)
qed

lemma pushed_action:
  assumes "wired s"
  shows "pushed s = (case next_action s of None \<Rightarrow> [] | Some (a, w) \<Rightarrow> puts_of a)"
proof (cases "next_action s")
  case None
  then show ?thesis by (simp add: worker_step_def pushed_def)
next
  case (Some aw)
  obtain a w where aw: "aw = (a, w)" by (cases aw)
  obtain w0 where w0: "thread s = Some w0" "worker_action w0 = Some (a, w)"
    using Some aw by (auto simp: next_action_def split: option.splits)
  have nd: "\<not> dead s" using w0 by (auto simp: dead_def worker_action_def split: wpc.splits)
  then have att: "attached s" using assms w0(1) by (simp add: wired_def)
  have q: "log_q s \<noteq> None" using assms w0(1) by (auto simp: wired_def)
  have ws: "worker_step s = perform a (s\<lparr>thread := Some w\<rparr>)"
    using Some aw by (simp add: worker_step_def)
  have f: "queue (s\<lparr>thread := Some w\<rparr>) = queue s" by (simp add: queue_def)
  show ?thesis
  proof (cases a)
    case (Log r)
    then show ?thesis using Some aw att q f
      by (simp add: pushed_def ws perform_def dispatch_queue_eq puts_of_def)
  next
    case PutSentinel
    then show ?thesis using Some aw q f
      by (simp add: pushed_def ws perform_def put_queue_eq puts_of_def)
  next
    case (SetFiles fs)
    then show ?thesis using Some aw by (simp add: pushed_def ws perform_def queue_def puts_of_def)
  next
    case (SetError m)
    then show ?thesis using Some aw by (simp add: pushed_def ws perform_def queue_def puts_of_def)
  next
    case Unwind
    then show ?thesis using Some aw by (simp add: pushed_def ws perform_def queue_def puts_of_def)
  qed
qed

lemma worker_puts_snoc:
  "worker_puts inp (sch @ [e]) s =
     worker_puts inp sch s @ (case e of Worker \<Rightarrow> pushed (run inp sch s) | _ \<Rightarrow> [])"
proof (induction sch arbitrary: s)
  case Nil
  show ?case by (cases e) (simp_all add: run_Nil)
next
  case (Cons x sch)
  show ?case using Cons.IH[of "job_step inp x s"] by (cases e) (simp_all add: run_Cons)
qed

lemma puts_trace:
  "worker_puts inp sch init = concat (map puts_of (worker_trace inp sch init))"
proof (induction sch rule: rev_induct)
  case Nil
  then show ?case by simp
next
  case (snoc e sch)
  have w: "wired (run inp sch init)" by (rule wired_run)
  show ?case
  proof (cases e)
    case Worker
    then show ?thesis using snoc pushed_action[OF w]
      by (cases "next_action (run inp sch init)")
         (auto simp: worker_puts_snoc worker_trace_snoc)
  qed (use snoc in \<open>simp_all add: worker_puts_snoc worker_trace_snoc\<close>)
qed

lemma lines_of_concat: "concat (map (\<lambda>r. lines_of [r]) evs) = lines_of evs"
  by (induction evs) simp_all

lemma puts_of_Log: "concat (map puts_of (map Log evs)) = lines_of evs"
proof -
  have "map puts_of (map Log evs) = map (\<lambda>r. lines_of [r]) evs"
    by (simp add: puts_of_def)
  then show ?thesis by (simp only: lines_of_concat)
qed

lemma puts_full: "concat (map puts_of (full_trace inp)) = lines_of (proc_events inp) @ [SEPARATION_DONE]"
proof -
  have "puts_of (outcome_action (proc_outcome inp)) = []"
    by (simp add: puts_of_def outcome_action_def split: outcome.splits)
  then show ?thesis using puts_of_Log[of "proc_events inp"]
    by (simp add: full_trace_def puts_of_def)
qed

lemma count_puts: "count_list (concat (map puts_of t)) SEPARATION_DONE = count_list t PutSentinel"
proof (induction t)
  case Nil
  then show ?case by simp
next
  case (Cons a t)
  have "count_list (puts_of a) SEPARATION_DONE = (if a = PutSentinel then 1 else 0)"
  proof (cases a)
    case (Log r)
    have "SEPARATION_DONE \<notin> set (lines_of [r])" by (rule sentinel_notin_lines)
    then show ?thesis using Log by (simp add: puts_of_def count_list_0_iff del: lines_of.simps)
  qed (simp_all add: puts_of_def)
  then show ?case using Cons by simp
qed

lemma count_take: "count_list (take n xs) x \<le> count_list xs x"
  by (metis append_take_drop_id count_list_append le_add1)

lemma puts_prefix:
  "worker_puts inp sch init
     = take (length (worker_puts inp sch init)) (lines_of (proc_events inp) @ [SEPARATION_DONE])"
proof -
  define n where "n = length (worker_trace inp sch init)"
  have t: "worker_trace inp sch init = take n (full_trace inp)"
    unfolding n_def by (rule trace_prefix)
  have "concat (map puts_of (take n (full_trace inp))) @ concat (map puts_of (drop n (full_trace inp)))
          = concat (map puts_of (full_trace inp))"
    by (metis append_take_drop_id concat_append map_append)
  then have "worker_puts inp sch init @ concat (map puts_of (drop n (full_trace inp)))
          = lines_of (proc_events inp) @ [SEPARATION_DONE]"
    using t by (simp only: puts_trace puts_full)
  then show ?thesis by (metis append_eq_conv_conj)
qed

lemma puts_count: "count_list (worker_puts inp sch init) SEPARATION_DONE \<le> 1"
  using trace_count[of inp sch] by (simp only: puts_trace count_puts)

lemma puts_sentinel:
  "SEPARATION_DONE \<in> set (worker_puts inp sch init) \<longleftrightarrow> dead (run inp sch init)"
proof -
  have "SEPARATION_DONE \<in> set (worker_puts inp sch init)
          \<longleftrightarrow> count_list (worker_puts inp sch init) SEPARATION_DONE \<noteq> 0"
    by (simp only: count_list_0_iff) simp
  also have "\<dots> \<longleftrightarrow> count_list (worker_trace inp sch init) PutSentinel \<noteq> 0"
    by (simp only: puts_trace count_puts)
  also have "\<dots> \<longleftrightarrow> PutSentinel \<in> set (worker_trace inp sch init)"
    by (simp only: count_list_0_iff) simp
  also have "\<dots> \<longleftrightarrow> dead (run inp sch init)"
  proof
    show "PutSentinel \<in> set (worker_trace inp sch init) \<Longrightarrow> dead (run inp sch init)"
      using trace_alive[of inp sch] by blast
    show "dead (run inp sch init) \<Longrightarrow> PutSentinel \<in> set (worker_trace inp sch init)"
      using trace_dead[of inp sch] by (simp add: full_trace_def)
  qed
  finally show ?thesis .
qed

lemma puts_dead:
  assumes "dead (run inp sch init)"
  shows "worker_puts inp sch init = lines_of (proc_events inp) @ [SEPARATION_DONE]"
  using trace_dead[OF assms] by (simp only: puts_trace puts_full)

lemma consumer_queue_count:
  "count_list (queue (consumer_step inp s)) x \<le> count_list (queue s) x"
  by (cases "pc s")
     (auto simp: consumer_step_def poll_def drain_def queue_def split: option.splits list.splits)

lemma dispatch_queue_count:
  "count_list (queue (dispatch r s)) SEPARATION_DONE = count_list (queue s) SEPARATION_DONE"
proof -
  have "SEPARATION_DONE \<notin> set (handle r [])" by (simp add: set_handle)
  then have "count_list (handle r []) SEPARATION_DONE = 0" by (simp add: count_list_0_iff)
  then show ?thesis by (simp add: dispatch_queue_eq)
qed

lemma queue_count_puts:
  "count_list (queue (run inp sch init)) SEPARATION_DONE
     \<le> count_list (worker_puts inp sch init) SEPARATION_DONE"
proof (induction sch rule: rev_induct)
  case Nil
  then show ?case by (simp add: run_Nil queue_def init_def)
next
  case (snoc e sch)
  show ?case
  proof (cases e)
    case Worker
    then show ?thesis using snoc worker_appends[of "run inp sch init"]
      by (simp add: run_snoc worker_puts_snoc job_step_def)
  next
    case Consumer
    then show ?thesis using snoc consumer_queue_count[of inp "run inp sch init" SEPARATION_DONE]
      by (simp add: run_snoc worker_puts_snoc job_step_def)
  next
    case Close
    then show ?thesis using snoc
      by (simp add: run_snoc worker_puts_snoc job_step_def queue_def close_frame)
  next
    case (Foreign r)
    then show ?thesis using snoc
      by (simp add: run_snoc worker_puts_snoc job_step_def dispatch_queue_count)
  qed
qed

text \<open>
  Claim C2, as stated, fails for an exception that is no \<^verbatim>\<open>Exception\<close>
  (\<^verbatim>\<open>SystemExit\<close>, \<^verbatim>\<open>KeyboardInterrupt\<close>): the \<^verbatim>\<open>finally\<close> block puts the
  sentinel although neither \<^verbatim>\<open>result["files"]\<close> nor \<^verbatim>\<open>result["error"]\<close> has been
  written.  The generator takes the sentinel from the queue, reads both entries as
  \<^verbatim>\<open>None\<close>, that is the values of line 76, and yields a final pair of a success with
  no artifact.
\<close>

theorem sentinel_put_with_no_outcome_written:
  "proc_outcome inp_exit = RaisedBaseException
   \<and> worker_trace inp_exit [Consumer, Consumer, Worker, Worker, Consumer] init = [Unwind, PutSentinel]
   \<and> worker_puts inp_exit [Consumer, Consumer, Worker, Worker, Consumer] init = [SEPARATION_DONE]
   \<and> queue (run inp_exit [Consumer, Consumer, Worker, Worker] init) = [SEPARATION_DONE]
   \<and> pc (run inp_exit [Consumer, Consumer, Worker, Worker, Consumer] init) = C_Drain
   \<and> queue (run inp_exit [Consumer, Consumer, Worker, Worker, Consumer] init) = []
   \<and> result_files (run inp_exit [Consumer, Consumer, Worker, Worker, Consumer] init) = None
   \<and> result_error (run inp_exit [Consumer, Consumer, Worker, Worker, Consumer] init) = None
   \<and> yields (run inp_exit [Consumer, Consumer, Worker, Worker, Consumer, Consumer] init)
        = [([], Some [])]"
  by (simp add: exec_defs inp_exit_def queue_def pushed_def)

text \<open>
  Claim C2, amended.  Along every schedule a step of the worker only appends to the queue
  of its job, and what the worker has appended so far is a beginning of: the lines of the
  Processor's records, then the sentinel.  So the sentinel is put at most once, the queue
  never holds it twice, it is put exactly when the thread has finished, and by then the
  statements of the worker have run in the order of lines 79 to 86: the records, then the
  write of the outcome, then the put.  A sentinel in the queue, or a generator that has
  left the polling loop, means the thread has finished; the result dictionary then holds
  the returned list in \<^verbatim>\<open>result["files"]\<close> when the Processor returned, the message in
  \<^verbatim>\<open>result["error"]\<close> when it raised an \<^verbatim>\<open>Exception\<close>, and \<^verbatim>\<open>None\<close> in both
  when it raised an exception that \<^verbatim>\<open>except Exception\<close> does not match.  A started
  worker that is given one step per record and two more has put the sentinel, whatever the
  Processor's outcome.
\<close>

theorem sentinel_pushed_once_last:
  "queue (worker_step (run inp sch init)) = queue (run inp sch init) @ pushed (run inp sch init)
   \<and> worker_puts inp sch init
        = take (length (worker_puts inp sch init)) (lines_of (proc_events inp) @ [SEPARATION_DONE])
   \<and> count_list (worker_puts inp sch init) SEPARATION_DONE \<le> 1
   \<and> count_list (queue (run inp sch init)) SEPARATION_DONE \<le> 1
   \<and> (SEPARATION_DONE \<in> set (worker_puts inp sch init) \<longleftrightarrow> dead (run inp sch init))
   \<and> worker_trace inp sch init = take (length (worker_trace inp sch init)) (full_trace inp)
   \<and> (dead (run inp sch init) \<longrightarrow>
        worker_puts inp sch init = lines_of (proc_events inp) @ [SEPARATION_DONE]
        \<and> worker_trace inp sch init
            = map Log (proc_events inp) @ [outcome_action (proc_outcome inp), PutSentinel])
   \<and> (SEPARATION_DONE \<in> set (queue (run inp sch init)) \<longrightarrow> dead (run inp sch init))
   \<and> (pc (run inp sch init) = C_Drain \<or> pc (run inp sch init) = C_FinalYield
        \<or> pc (run inp sch init) = C_Done \<longrightarrow> dead (run inp sch init))
   \<and> (dead (run inp sch init) \<and> proc_outcome inp = Returned fs \<longrightarrow>
        result_files (run inp sch init) = fs \<and> result_error (run inp sch init) = None)
   \<and> (dead (run inp sch init) \<and> proc_outcome inp = RaisedException m \<longrightarrow>
        result_error (run inp sch init) = Some m \<and> result_files (run inp sch init) = None)
   \<and> (dead (run inp sch init) \<and> proc_outcome inp = RaisedBaseException \<longrightarrow>
        result_error (run inp sch init) = None \<and> result_files (run inp sch init) = None)
   \<and> (thread (run inp sch init) \<noteq> None \<longrightarrow>
        worker_puts inp (sch @ replicate (length (proc_events inp) + 2) Worker) init
          = lines_of (proc_events inp) @ [SEPARATION_DONE])"
proof -
  have st: "stable inp (run inp sch init)" by (rule stable_run)
  have c1: "queue (worker_step (run inp sch init)) = queue (run inp sch init) @ pushed (run inp sch init)"
    by (rule worker_appends)
  have c4: "count_list (queue (run inp sch init)) SEPARATION_DONE \<le> 1"
    using queue_count_puts[of inp sch] puts_count[of inp sch] by linarith
  have c7: "dead (run inp sch init) \<longrightarrow>
        worker_puts inp sch init = lines_of (proc_events inp) @ [SEPARATION_DONE]
        \<and> worker_trace inp sch init
            = map Log (proc_events inp) @ [outcome_action (proc_outcome inp), PutSentinel]"
    using puts_dead[of inp sch] trace_dead[of inp sch] by (simp add: full_trace_def)
  have c8: "SEPARATION_DONE \<in> set (queue (run inp sch init)) \<longrightarrow> dead (run inp sch init)"
    using st by (simp add: stable_def)
  have c9: "pc (run inp sch init) = C_Drain \<or> pc (run inp sch init) = C_FinalYield
        \<or> pc (run inp sch init) = C_Done \<longrightarrow> dead (run inp sch init)"
    using st by (auto simp: stable_def pc_ok_def)
  have r: "dead (run inp sch init) \<Longrightarrow>
        result_error (run inp sch init) = outcome_error (proc_outcome inp)
        \<and> result_files (run inp sch init) = outcome_files (proc_outcome inp)"
    using dead_result[OF st] by simp
  have c10: "dead (run inp sch init) \<and> proc_outcome inp = Returned fs \<longrightarrow>
        result_files (run inp sch init) = fs \<and> result_error (run inp sch init) = None"
    using r by (auto simp: outcome_error_def outcome_files_def)
  have c11: "dead (run inp sch init) \<and> proc_outcome inp = RaisedException m \<longrightarrow>
        result_error (run inp sch init) = Some m \<and> result_files (run inp sch init) = None"
    using r by (auto simp: outcome_error_def outcome_files_def)
  have c12: "dead (run inp sch init) \<and> proc_outcome inp = RaisedBaseException \<longrightarrow>
        result_error (run inp sch init) = None \<and> result_files (run inp sch init) = None"
    using r by (auto simp: outcome_error_def outcome_files_def)
  have c13: "thread (run inp sch init) \<noteq> None \<longrightarrow>
        worker_puts inp (sch @ replicate (length (proc_events inp) + 2) Worker) init
          = lines_of (proc_events inp) @ [SEPARATION_DONE]"
    using started_worker_finishes[of inp sch] puts_dead by blast
  show ?thesis
    using c1 puts_prefix[of inp sch] puts_count[of inp sch] c4 puts_sentinel[of inp sch]
      trace_prefix[of inp sch] c7 c8 c9 c10 c11 c12 c13
    by blast
qed

theorem sentinel_pushed_once_witness:
  "worker_puts inp_disk_full [Consumer, Consumer, Worker, Consumer, Worker, Worker, Worker] init
     = [''12:00:00 - INFO - Loading model'', SEPARATION_DONE]
   \<and> worker_trace inp_disk_full [Consumer, Consumer, Worker, Consumer, Worker, Worker, Worker] init
     = [Log (hd (proc_events inp_disk_full)), SetError ''disk full'', PutSentinel]
   \<and> dead (run inp_disk_full [Consumer, Consumer, Worker, Consumer, Worker, Worker, Worker] init)
   \<and> proc_outcome inp_disk_full = RaisedException ''disk full''
   \<and> queue (run inp_disk_full [Consumer, Consumer, Worker, Consumer, Worker, Worker, Worker] init)
        = [SEPARATION_DONE]
   \<and> result_error (run inp_disk_full [Consumer, Consumer, Worker, Consumer, Worker, Worker, Worker] init)
        = Some ''disk full''
   \<and> result_files (run inp_disk_full [Consumer, Consumer, Worker, Consumer, Worker, Worker, Worker] init)
        = None"
  using sentinel_pushed_once_last[of inp_disk_full
          "[Consumer, Consumer, Worker, Consumer, Worker, Worker, Worker]" None "''disk full''"]
  by (simp add: exec_defs inp_disk_full_def dead_def queue_def outcome_action_def pushed_def)

section \<open>What the caller receives on every schedule\<close>

lemma length_inter: "length (inter ls) = length ls"
  by (simp add: inter_def del: upt_Suc)

lemma shape_init: "shape inp init"
  by (simp add: shape_def init_def)

lemma shape_poll:
  assumes "yields s = inter (logs s)"
  shows "shape inp (poll s)"
proof (cases "log_q s")
  case None
  then show ?thesis using assms by (simp add: poll_def shape_def)
next
  case (Some q)
  show ?thesis
  proof (cases q)
    case Nil
    then show ?thesis using Some assms by (simp add: poll_def shape_def)
  next
    case (Cons line r)
    show ?thesis
    proof (cases "line = SEPARATION_DONE")
      case True
      then show ?thesis using Some Cons assms
        by (simp add: poll_def shape_def length_inter)
    next
      case False
      then show ?thesis using Some Cons assms
        by (simp add: poll_def shape_def inter_snoc)
    qed
  qed
qed

lemma shape_drain:
  assumes "pc s = C_Drain" and "shape inp s"
  shows "shape inp (drain inp s)"
proof -
  have a: "length (yields s) \<le> length (logs s)"
    and b: "yields s = inter (take (length (yields s)) (logs s))"
    using assms by (simp_all add: shape_def)
  have fin: "shape inp (s\<lparr>attached := False,
            yields := yields s @ [final_pair inp (logs s) (result_error s) (result_files s)],
            pc := C_FinalYield\<rparr>)"
    using a b by (simp add: shape_def)
  show ?thesis
  proof (cases "log_q s")
    case None
    then show ?thesis using fin by (simp add: drain_def)
  next
    case (Some q)
    show ?thesis
    proof (cases q)
      case Nil
      then show ?thesis using Some fin by (simp add: drain_def)
    next
      case (Cons line r)
      show ?thesis
      proof (cases "line = SEPARATION_DONE")
        case True
        then show ?thesis using Some Cons assms by (simp add: drain_def shape_def)
      next
        case False
        then show ?thesis using Some Cons assms(1) a b by (simp add: drain_def shape_def)
      qed
    qed
  qed
qed

lemma shape_consumer:
  assumes "shape inp s"
  shows "shape inp (consumer_step inp s)"
proof (cases "pc s")
  case C_Start
  then show ?thesis using assms by (simp add: consumer_step_def shape_def)
next
  case C_Attached
  then show ?thesis using assms by (simp add: consumer_step_def shape_def inter_Nil)
next
  case C_Get
  then show ?thesis using assms shape_poll[of s inp] by (simp add: consumer_step_def shape_def)
next
  case C_Yield
  then show ?thesis using assms shape_poll[of s inp] by (simp add: consumer_step_def shape_def)
next
  case C_Check
  then show ?thesis using assms by (simp add: consumer_step_def shape_def length_inter)
next
  case C_Drain
  then show ?thesis using assms shape_drain[of s inp] by (simp add: consumer_step_def)
next
  case C_FinalYield
  then show ?thesis using assms by (simp add: consumer_step_def shape_def)
next
  case C_Done
  then show ?thesis using assms by (simp add: consumer_step_def)
next
  case (C_Raised m)
  then show ?thesis using assms by (simp add: consumer_step_def)
next
  case C_Closed
  then show ?thesis using assms by (simp add: consumer_step_def)
qed

lemma shape_worker:
  assumes "stable inp s" and "shape inp s"
  shows "shape inp (worker_step s)"
proof (cases "pc s = C_FinalYield \<or> pc s = C_Done")
  case True
  then have "dead s" using assms(1) by (auto simp: stable_def pc_ok_def)
  then have "worker_step s = s" by (simp add: worker_idle)
  then show ?thesis using assms(2) by simp
next
  case False
  then show ?thesis using assms(2)
    by (cases "pc s") (simp_all add: shape_def worker_frame)
qed

lemma shape_dispatch: "shape inp s \<Longrightarrow> shape inp (dispatch r s)"
  by (cases "pc s") (simp_all add: shape_def dispatch_frame)

lemma shape_close: "shape inp s \<Longrightarrow> shape inp (close s)"
  by (cases "pc s") (simp_all add: shape_def close_def)

lemma shape_run: "shape inp (run inp sch init)"
proof (induction sch rule: rev_induct)
  case Nil
  then show ?case by (simp add: run_Nil shape_init)
next
  case (snoc e sch)
  have st: "stable inp (run inp sch init)" by (rule stable_run)
  show ?case using snoc st
    by (cases e)
       (simp_all add: run_snoc job_step_def shape_worker shape_consumer shape_close shape_dispatch)
qed

lemma going_consumer:
  assumes "is_file inp" and "going s"
  shows "going (consumer_step inp s)"
  using assms poll_fuel[of s] drain_fuel[of s inp]
  by (cases "pc s"; cases "queue s = []") (auto simp: consumer_step_def going_def)

lemma going_run:
  assumes "is_file inp" and "no_close sch" and "going s"
  shows "going (run inp sch s)"
  using assms(2,3)
proof (induction sch arbitrary: s)
  case Nil
  then show ?case by (simp add: run_Nil)
next
  case (Cons e sch)
  have "going (job_step inp e s)"
  proof (cases e)
    case Worker
    then show ?thesis using Cons.prems(2) by (simp add: job_step_def going_def worker_frame)
  next
    case Consumer
    then show ?thesis using Cons.prems(2) assms(1) by (simp add: job_step_def going_consumer)
  next
    case Close
    then show ?thesis using Cons.prems(1) by (simp add: no_close_def)
  next
    case (Foreign r)
    then show ?thesis using Cons.prems(2) by (simp add: job_step_def going_def dispatch_frame)
  qed
  then show ?case using Cons by (simp add: run_Cons no_close_def)
qed

lemma reaches_end:
  assumes "is_file inp" and "no_close sch"
  shows "pc (run inp (sch @ read_on inp sch) init) = C_Done"
proof -
  define s1 where "s1 = run inp (sch @ [Consumer, Consumer]) init"
  define W where "W = replicate (length (proc_events inp) + 2) Worker"
  define s2 where "s2 = run inp ((sch @ [Consumer, Consumer]) @ W) init"
  have n1: "no_close (sch @ [Consumer, Consumer])" using assms(2) by (simp add: no_close_def)
  have g1: "going s1" unfolding s1_def using assms(1) n1
    by (rule going_run) (simp add: going_def init_def)
  have pc1: "pc s1 \<noteq> C_Start \<and> pc s1 \<noteq> C_Attached"
    using two_consumer_steps[OF assms(1), of "run inp sch init"]
    by (simp add: s1_def run_append run_Cons run_Nil job_step_def)
  have act1: "active s1" using g1 pc1 by (cases "pc s1") (auto simp: going_def active_def)
  have st1: "stable inp s1" unfolding s1_def by (rule stable_run)
  have "thread s1 \<noteq> None"
    using act1 st1 by (cases "pc s1") (auto simp: active_def stable_def pc_ok_def dead_iff)
  then have d2: "dead s2"
    unfolding s1_def s2_def W_def by (rule started_worker_finishes)
  have s21: "s2 = run inp W s1" by (simp only: s2_def s1_def run_append)
  have "pc s2 = pc s1" unfolding s21 W_def by (rule worker_run_pc)
  then have act: "active s2" using act1 by (simp add: active_def)
  have "pc (run inp (replicate (length (queue s2) + 5) Consumer) s2) = C_Done"
    using d2 act cfuel_bound[of s2] consumer_finishes by blast
  moreover have "run inp (sch @ read_on inp sch) init
      = run inp (replicate (length (queue s2) + 5) Consumer) s2"
    by (simp only: s2_def read_on_def W_def run_append append_assoc)
  ultimately show ?thesis by simp
qed

lemma ended_shape:
  assumes "pc (run inp sch init) = C_FinalYield \<or> pc (run inp sch init) = C_Done"
  shows "yields (run inp sch init)
           = inter (take (length (yields (run inp sch init)) - 1) (logs (run inp sch init)))
             @ [final_pair inp (logs (run inp sch init)) (outcome_error (proc_outcome inp))
                  (outcome_files (proc_outcome inp))]
         \<and> length (yields (run inp sch init)) \<le> Suc (length (logs (run inp sch init)))"
proof -
  have st: "stable inp (run inp sch init)" by (rule stable_run)
  have d: "dead (run inp sch init)" using st assms by (auto simp: stable_def pc_ok_def)
  have r: "result_error (run inp sch init) = outcome_error (proc_outcome inp)
     \<and> result_files (run inp sch init) = outcome_files (proc_outcome inp)"
    using st d by (rule dead_result)
  show ?thesis using shape_run[of inp sch] assms r by (auto simp: shape_def)
qed

lemma open_shape:
  assumes "pc (run inp sch init) \<noteq> C_FinalYield" and "pc (run inp sch init) \<noteq> C_Done"
    and "pc (run inp sch init) \<noteq> C_Closed"
  shows "yields (run inp sch init)
           = inter (take (length (yields (run inp sch init))) (logs (run inp sch init)))"
  using shape_run[of inp sch] assms
  by (cases "pc (run inp sch init)") (auto simp: shape_def length_inter inter_Nil)

text \<open>
  Claim C1, as stated, fails in its scenario C: the Processor logs one line and raises
  \<^verbatim>\<open>Exception("disk full")\<close>.  The generator yields one intermediate pair and one
  last pair whose text ends with the error, but the artifacts of the last pair are
  \<^verbatim>\<open>None\<close> (line 122), not an empty list.
\<close>

theorem failing_job_yields_absent_artifacts:
  "pc (run inp_disk_full
         [Consumer, Consumer, Worker, Consumer, Worker, Worker, Consumer, Consumer, Consumer] init)
     = C_Done
   \<and> yields (run inp_disk_full
         [Consumer, Consumer, Worker, Consumer, Worker, Worker, Consumer, Consumer, Consumer] init)
     = [(''12:00:00 - INFO - Loading model'', None),
        (''12:00:00 - INFO - Loading model'' @ NL @ ''ERROR: disk full'', None)]
   \<and> snd (last (yields (run inp_disk_full
         [Consumer, Consumer, Worker, Consumer, Worker, Worker, Consumer, Consumer, Consumer] init)))
     \<noteq> Some []"
  by (simp add: exec_defs inp_disk_full_def)

text \<open>
  Claim C1, amended.  Take a job whose input file exists, after any schedule of worker
  steps, generator steps and records that other callers of the Processor log, the caller
  not closing the generator.  Then the schedule \<open>read_on\<close> brings the generator to its
  end, and what it has yielded then is exactly one last pair, made from all the
  accumulated lines and the outcome of the Processor, after intermediate pairs only: each
  of them holds the first lines joined and artifacts \<^verbatim>\<open>None\<close>, and there are at most as
  many as lines (a line that the drain loop takes gets no pair of its own).  Before the
  last \<^verbatim>\<open>yield\<close> every yielded pair is an intermediate one, from it on the pairs are
  as at the end.  When the Processor raised an \<^verbatim>\<open>Exception\<close> with a message \<open>m\<close>
  that is not empty, the last pair is the joined lines, a newline and \<^verbatim>\<open>ERROR: m\<close>,
  with artifacts \<^verbatim>\<open>None\<close>.  When the job runs alone, the schedule \<open>finish\<close> also
  brings it to its end and the pairs are one per line that the Processor's records give,
  then the last one.
\<close>

theorem stream_ends_with_one_final_pair_always:
  assumes "is_file inp" and "no_close sch"
  shows "pc (run inp (sch @ read_on inp sch) init) = C_Done
       \<and> yields (run inp (sch @ read_on inp sch) init)
           = inter (take (length (yields (run inp (sch @ read_on inp sch) init)) - 1)
                      (logs (run inp (sch @ read_on inp sch) init)))
             @ [final_pair inp (logs (run inp (sch @ read_on inp sch) init))
                  (outcome_error (proc_outcome inp)) (outcome_files (proc_outcome inp))]
       \<and> length (yields (run inp (sch @ read_on inp sch) init))
           \<le> Suc (length (logs (run inp (sch @ read_on inp sch) init)))
       \<and> (\<forall>p\<in>set (butlast (yields (run inp (sch @ read_on inp sch) init))). snd p = None)
       \<and> (proc_outcome inp = RaisedException m \<and> m \<noteq> [] \<longrightarrow>
            last (yields (run inp (sch @ read_on inp sch) init))
              = (join NL (logs (run inp (sch @ read_on inp sch) init)) @ NL @ ''ERROR: '' @ m,
                 None))
       \<and> (pc (run inp sch init) \<noteq> C_FinalYield \<and> pc (run inp sch init) \<noteq> C_Done \<longrightarrow>
            yields (run inp sch init)
              = inter (take (length (yields (run inp sch init))) (logs (run inp sch init)))
            \<and> (\<forall>p\<in>set (yields (run inp sch init)). snd p = None))
       \<and> (pc (run inp sch init) = C_FinalYield \<or> pc (run inp sch init) = C_Done \<longrightarrow>
            yields (run inp sch init)
              = inter (take (length (yields (run inp sch init)) - 1) (logs (run inp sch init)))
                @ [final_pair inp (logs (run inp sch init))
                     (outcome_error (proc_outcome inp)) (outcome_files (proc_outcome inp))])
       \<and> (alone sch \<longrightarrow>
            pc (run inp (sch @ finish inp) init) = C_Done
            \<and> yields (run inp (sch @ finish inp) init)
                = inter (lines_of (proc_events inp))
                  @ [final_pair inp (lines_of (proc_events inp)) (outcome_error (proc_outcome inp))
                       (outcome_files (proc_outcome inp))]
            \<and> (pc (run inp sch init) = C_FinalYield \<or> pc (run inp sch init) = C_Done \<longrightarrow>
                 yields (run inp sch init)
                   = inter (lines_of (proc_events inp))
                     @ [final_pair inp (lines_of (proc_events inp))
                          (outcome_error (proc_outcome inp)) (outcome_files (proc_outcome inp))])
            \<and> length (inter (lines_of (proc_events inp))) = length (lines_of (proc_events inp))
            \<and> (\<forall>p\<in>set (inter (lines_of (proc_events inp))). snd p = None))"
proof -
  define E where "E = run inp (sch @ read_on inp sch) init"
  define S where "S = run inp sch init"
  define fin where "fin = (\<lambda>ls. final_pair inp ls (outcome_error (proc_outcome inp))
                                  (outcome_files (proc_outcome inp)))"
  have c1: "pc E = C_Done" unfolding E_def using assms by (rule reaches_end)
  have es: "yields E = inter (take (length (yields E) - 1) (logs E)) @ [fin (logs E)]
            \<and> length (yields E) \<le> Suc (length (logs E))"
    unfolding E_def fin_def using c1 ended_shape[of inp "sch @ read_on inp sch"] by (simp add: E_def)
  have c2: "yields E = inter (take (length (yields E) - 1) (logs E)) @ [fin (logs E)]"
    using es by blast
  have c3: "length (yields E) \<le> Suc (length (logs E))" using es by blast
  have "butlast (yields E) = inter (take (length (yields E) - 1) (logs E))"
    using c2 by (metis butlast_snoc)
  then have c4: "\<forall>p\<in>set (butlast (yields E)). snd p = None"
    using inter_shape[of "take (length (yields E) - 1) (logs E)"] by simp
  have l: "last (yields E) = fin (logs E)" using c2 by (metis last_snoc)
  have c5: "proc_outcome inp = RaisedException m \<and> m \<noteq> [] \<longrightarrow>
            last (yields E) = (join NL (logs E) @ NL @ ''ERROR: '' @ m, None)"
    unfolding l fin_def by (auto simp: outcome_error_def final_pair_error)
  have g: "going S" unfolding S_def using assms
    by (rule going_run) (simp add: going_def init_def)
  then have nc: "pc S \<noteq> C_Closed" by (auto simp: going_def)
  have c6: "pc S \<noteq> C_FinalYield \<and> pc S \<noteq> C_Done \<longrightarrow>
            yields S = inter (take (length (yields S)) (logs S))
            \<and> (\<forall>p\<in>set (yields S). snd p = None)"
  proof
    assume a: "pc S \<noteq> C_FinalYield \<and> pc S \<noteq> C_Done"
    have y: "yields S = inter (take (length (yields S)) (logs S))"
      unfolding S_def using a nc by (intro open_shape) (simp_all add: S_def)
    have "\<forall>p\<in>set (inter (take (length (yields S)) (logs S))). snd p = None"
      using inter_shape by blast
    then have "\<forall>p\<in>set (yields S). snd p = None" using y by metis
    then show "yields S = inter (take (length (yields S)) (logs S))
            \<and> (\<forall>p\<in>set (yields S). snd p = None)" using y by blast
  qed
  have c7: "pc S = C_FinalYield \<or> pc S = C_Done \<longrightarrow>
            yields S = inter (take (length (yields S) - 1) (logs S)) @ [fin (logs S)]"
    unfolding S_def fin_def using ended_shape[of inp sch] by blast
  have c8: "alone sch \<longrightarrow>
            pc (run inp (sch @ finish inp) init) = C_Done
            \<and> yields (run inp (sch @ finish inp) init)
                = inter (lines_of (proc_events inp)) @ [fin (lines_of (proc_events inp))]
            \<and> (pc S = C_FinalYield \<or> pc S = C_Done \<longrightarrow>
                 yields S = inter (lines_of (proc_events inp)) @ [fin (lines_of (proc_events inp))])
            \<and> length (inter (lines_of (proc_events inp))) = length (lines_of (proc_events inp))
            \<and> (\<forall>p\<in>set (inter (lines_of (proc_events inp))). snd p = None)"
  proof
    assume al: "alone sch"
    have a: "pc (run inp (sch @ finish inp) init) = C_Done
       \<and> yields (run inp (sch @ finish inp) init) = expected_yields inp"
      using assms(1) al by (rule completes)
    have b: "pc S = C_FinalYield \<or> pc S = C_Done \<longrightarrow> yields S = expected_yields inp"
      unfolding S_def using ended_yields[OF assms(1) al] by blast
    show "pc (run inp (sch @ finish inp) init) = C_Done
            \<and> yields (run inp (sch @ finish inp) init)
                = inter (lines_of (proc_events inp)) @ [fin (lines_of (proc_events inp))]
            \<and> (pc S = C_FinalYield \<or> pc S = C_Done \<longrightarrow>
                 yields S = inter (lines_of (proc_events inp)) @ [fin (lines_of (proc_events inp))])
            \<and> length (inter (lines_of (proc_events inp))) = length (lines_of (proc_events inp))
            \<and> (\<forall>p\<in>set (inter (lines_of (proc_events inp))). snd p = None)"
      using a b inter_shape[of "lines_of (proc_events inp)"]
      unfolding expected_yields_def fin_def by blast
  qed
  show ?thesis
    using c1 c2 c3 c4 c5 c6 c7 c8 unfolding E_def S_def fin_def by blast
qed

theorem stream_ends_always_witness:
  "is_file inp_disk_full
   \<and> no_close [Consumer, Consumer, Worker, Worker, Worker, Foreign other_record]
   \<and> read_on inp_disk_full [Consumer, Consumer, Worker, Worker, Worker, Foreign other_record]
       = [Consumer, Consumer, Worker, Worker, Worker,
          Consumer, Consumer, Consumer, Consumer, Consumer, Consumer]
   \<and> pc (run inp_disk_full
           ([Consumer, Consumer, Worker, Worker, Worker, Foreign other_record]
            @ read_on inp_disk_full
                [Consumer, Consumer, Worker, Worker, Worker, Foreign other_record]) init) = C_Done
   \<and> yields (run inp_disk_full
           ([Consumer, Consumer, Worker, Worker, Worker, Foreign other_record]
            @ read_on inp_disk_full
                [Consumer, Consumer, Worker, Worker, Worker, Foreign other_record]) init)
       = [(''12:00:00 - INFO - Loading model'', None),
          (''12:00:00 - INFO - Loading model'' @ NL @ ''12:00:01 - INFO - Other job''
             @ NL @ ''ERROR: disk full'', None)]"
proof -
  let ?sch = "[Consumer, Consumer, Worker, Worker, Worker, Foreign other_record]"
  have h: "is_file inp_disk_full" "no_close ?sch"
    by (simp_all add: inp_disk_full_def no_close_def)
  have six: "replicate 6 Consumer = [Consumer, Consumer, Consumer, Consumer, Consumer, Consumer]"
    by (simp add: eval_nat_numeral)
  have r: "read_on inp_disk_full ?sch
       = [Consumer, Consumer, Worker, Worker, Worker,
          Consumer, Consumer, Consumer, Consumer, Consumer, Consumer]"
    by (simp add: read_on_def exec_defs inp_disk_full_def other_record_def queue_def six)
  have y: "yields (run inp_disk_full
           (?sch @ [Consumer, Consumer, Worker, Worker, Worker,
                    Consumer, Consumer, Consumer, Consumer, Consumer, Consumer]) init)
       = [(''12:00:00 - INFO - Loading model'', None),
          (''12:00:00 - INFO - Loading model'' @ NL @ ''12:00:01 - INFO - Other job''
             @ NL @ ''ERROR: disk full'', None)]"
    by (simp add: exec_defs inp_disk_full_def other_record_def)
  show ?thesis
    using h r y stream_ends_with_one_final_pair_always[OF h, of "''disk full''"]
    by (simp only: simp_thms)
qed

section \<open>Where the artifact paths lead\<close>

lemma resolve_append: "resolve acc (a @ b) = resolve (resolve acc a) b"
  by (induction a arbitrary: acc) simp_all

lemma resolve_plain: "''..'' \<notin> set b \<Longrightarrow> resolve acc b = acc @ b"
proof (induction b arbitrary: acc)
  case Nil
  then show ?case by simp
next
  case (Cons a b)
  have n: "a \<noteq> ''..''" using Cons.prems by (metis list.set_intros(1))
  have "''..'' \<notin> set b" using Cons.prems by (metis list.set_intros(2))
  then have "resolve (acc @ [a]) b = (acc @ [a]) @ b" by (rule Cons.IH)
  then show ?case using n by simp
qed

lemma relative_rooted:
  assumes "take 1 f \<noteq> ''/''" and "''..'' \<notin> set (parts (parse_path f))"
  shows "rooted_under (BASE_OUTPUT_DIR inp) (joinpath (BASE_OUTPUT_DIR inp) f)"
proof -
  define D where "D = resolve [] (workspace_dir inp @ [''output''])"
  have "resolve [] ((workspace_dir inp @ [''output'']) @ parts (parse_path f))
          = D @ parts (parse_path f)"
    unfolding D_def using resolve_plain[OF assms(2)] by (simp only: resolve_append)
  then have "take (length D) (resolve [] (workspace_dir inp @ [''output''] @ parts (parse_path f))) = D"
    by simp
  then show ?thesis
    unfolding relative_join[OF assms(1)] by (simp add: base_output_dir rooted_under_def D_def)
qed

text \<open>
  Claim C4, as stated, fails for an artifact name that is an absolute path, and for a
  relative one that climbs with \<^verbatim>\<open>..\<close>: \<^verbatim>\<open>BASE_OUTPUT_DIR / fname\<close> is \<^verbatim>\<open>fname\<close>
  itself in the first case and a path that leaves the output directory in the second.
\<close>

theorem artifact_name_leaves_output_dir:
  "pc (run inp_abs [Consumer, Consumer, Worker, Worker, Consumer, Consumer, Consumer] init) = C_Done
   \<and> yields (run inp_abs [Consumer, Consumer, Worker, Worker, Consumer, Consumer, Consumer] init)
       = [([], Some [''/tmp/out.wav''])]
   \<and> path_str (BASE_OUTPUT_DIR inp_abs) = ''/srv/app/output''
   \<and> \<not> rooted_under (BASE_OUTPUT_DIR inp_abs) (parse_path ''/tmp/out.wav'')
   \<and> pc (run inp_up [Consumer, Consumer, Worker, Worker, Consumer, Consumer, Consumer] init) = C_Done
   \<and> yields (run inp_up [Consumer, Consumer, Worker, Worker, Consumer, Consumer, Consumer] init)
       = [([], Some [''/srv/app/output/../../etc/passwd''])]
   \<and> path_str (BASE_OUTPUT_DIR inp_up) = ''/srv/app/output''
   \<and> resolve [] (parts (parse_path ''/srv/app/output/../../etc/passwd'')) = [''srv'', ''etc'', ''passwd'']
   \<and> \<not> rooted_under (BASE_OUTPUT_DIR inp_up) (parse_path ''/srv/app/output/../../etc/passwd'')"
  by (simp add: exec_defs inp_abs_def inp_up_def joinpath_def parse_path_def splitroot_def
        path_str_def absolute_def is_absolute_def BASE_OUTPUT_DIR_def rooted_under_def)

text \<open>
  Claim C4, amended.  Paths are those of \<^verbatim>\<open>pathlib\<close> on a POSIX system.  For a job whose
  Processor returns the list \<open>names\<close>, on every schedule (other callers of the Processor
  may log meanwhile): once the generator has made its last pair, that pair holds the
  joined log lines and one path per name, in the order of the list, namely the string of
  \<^verbatim>\<open>BASE_OUTPUT_DIR / name\<close>, which is always absolute; and when the input file exists
  and the caller does not close the generator, the schedule \<open>read_on\<close> brings the
  generator there.  When the name is relative (it does not start with a slash) and has no
  \<^verbatim>\<open>..\<close> part, the path lies under \<^verbatim>\<open>BASE_OUTPUT_DIR\<close>: followed through its
  \<^verbatim>\<open>..\<close> parts it begins with the directory, and its string is the directory's string
  followed by the parts of the name.
\<close>

theorem artifact_paths_of_success:
  assumes "proc_outcome inp = Returned (Some names)"
  shows "(pc (run inp sch init) = C_FinalYield \<or> pc (run inp sch init) = C_Done \<longrightarrow>
            yields (run inp sch init) \<noteq> []
            \<and> last (yields (run inp sch init))
                = (join NL (logs (run inp sch init)),
                   Some (map (\<lambda>f. path_str (joinpath (BASE_OUTPUT_DIR inp) f)) names)))
       \<and> (is_file inp \<and> no_close sch \<longrightarrow>
            pc (run inp (sch @ read_on inp sch) init) = C_Done
            \<and> snd (last (yields (run inp (sch @ read_on inp sch) init)))
                = Some (map (\<lambda>f. path_str (joinpath (BASE_OUTPUT_DIR inp) f)) names))
       \<and> length (map (\<lambda>f. path_str (joinpath (BASE_OUTPUT_DIR inp) f)) names) = length names
       \<and> (\<forall>i<length names.
            map (\<lambda>f. path_str (joinpath (BASE_OUTPUT_DIR inp) f)) names ! i
              = path_str (joinpath (BASE_OUTPUT_DIR inp) (names ! i)))
       \<and> (\<forall>f\<in>set names. is_absolute (joinpath (BASE_OUTPUT_DIR inp) f))
       \<and> (\<forall>f\<in>set names. take 1 f \<noteq> ''/'' \<and> ''..'' \<notin> set (parts (parse_path f)) \<longrightarrow>
            rooted_under (BASE_OUTPUT_DIR inp) (joinpath (BASE_OUTPUT_DIR inp) f)
            \<and> path_str (joinpath (BASE_OUTPUT_DIR inp) f)
                = path_str (BASE_OUTPUT_DIR inp)
                  @ (if parts (parse_path f) = [] then []
                     else ''/'' @ join ''/'' (parts (parse_path f))))"
proof -
  have f: "files_or_empty (Some names) = names" by (simp add: files_or_empty_def)
  have fp: "final_pair inp ls (outcome_error (proc_outcome inp)) (outcome_files (proc_outcome inp))
          = (join NL ls, Some (map (\<lambda>f. path_str (joinpath (BASE_OUTPUT_DIR inp) f)) names))" for ls
    by (simp add: assms outcome_error_def outcome_files_def final_pair_files f)
  have e: "yields (run inp sch' init) \<noteq> []
            \<and> last (yields (run inp sch' init))
                = (join NL (logs (run inp sch' init)),
                   Some (map (\<lambda>f. path_str (joinpath (BASE_OUTPUT_DIR inp) f)) names))"
    if "pc (run inp sch' init) = C_FinalYield \<or> pc (run inp sch' init) = C_Done" for sch'
  proof -
    have "yields (run inp sch' init)
           = inter (take (length (yields (run inp sch' init)) - 1) (logs (run inp sch' init)))
             @ [(join NL (logs (run inp sch' init)),
                   Some (map (\<lambda>f. path_str (joinpath (BASE_OUTPUT_DIR inp) f)) names))]"
      using ended_shape[OF that] by (simp only: fp)
    then show ?thesis by (metis last_snoc snoc_eq_iff_butlast)
  qed
  have a: "pc (run inp sch init) = C_FinalYield \<or> pc (run inp sch init) = C_Done \<longrightarrow>
            yields (run inp sch init) \<noteq> []
            \<and> last (yields (run inp sch init))
                = (join NL (logs (run inp sch init)),
                   Some (map (\<lambda>f. path_str (joinpath (BASE_OUTPUT_DIR inp) f)) names))"
    using e[of sch] by blast
  have b: "is_file inp \<and> no_close sch \<longrightarrow>
            pc (run inp (sch @ read_on inp sch) init) = C_Done
            \<and> snd (last (yields (run inp (sch @ read_on inp sch) init)))
                = Some (map (\<lambda>f. path_str (joinpath (BASE_OUTPUT_DIR inp) f)) names)"
  proof
    assume h: "is_file inp \<and> no_close sch"
    then have d: "pc (run inp (sch @ read_on inp sch) init) = C_Done"
      using reaches_end by blast
    then show "pc (run inp (sch @ read_on inp sch) init) = C_Done
            \<and> snd (last (yields (run inp (sch @ read_on inp sch) init)))
                = Some (map (\<lambda>f. path_str (joinpath (BASE_OUTPUT_DIR inp) f)) names)"
      using e[of "sch @ read_on inp sch"] by simp
  qed
  have c: "\<forall>i<length names.
            map (\<lambda>f. path_str (joinpath (BASE_OUTPUT_DIR inp) f)) names ! i
              = path_str (joinpath (BASE_OUTPUT_DIR inp) (names ! i))"
    by simp
  have r: "\<forall>f\<in>set names. take 1 f \<noteq> ''/'' \<and> ''..'' \<notin> set (parts (parse_path f)) \<longrightarrow>
            rooted_under (BASE_OUTPUT_DIR inp) (joinpath (BASE_OUTPUT_DIR inp) f)
            \<and> path_str (joinpath (BASE_OUTPUT_DIR inp) f)
                = path_str (BASE_OUTPUT_DIR inp)
                  @ (if parts (parse_path f) = [] then []
                     else ''/'' @ join ''/'' (parts (parse_path f)))"
    using relative_rooted relative_str by blast
  have ab: "\<forall>f\<in>set names. is_absolute (joinpath (BASE_OUTPUT_DIR inp) f)"
    using joinpath_absolute by blast
  show ?thesis using a b c r ab by simp
qed

theorem artifact_paths_witness:
  "proc_outcome inp_quiet = Returned (Some [''a.wav''])
   \<and> is_file inp_quiet
   \<and> no_close [Consumer, Consumer, Worker, Worker, Foreign other_record]
   \<and> pc (run inp_quiet ([Consumer, Consumer, Worker, Worker, Foreign other_record]
            @ read_on inp_quiet [Consumer, Consumer, Worker, Worker, Foreign other_record]) init)
       = C_Done
   \<and> yields (run inp_quiet ([Consumer, Consumer, Worker, Worker, Foreign other_record]
            @ read_on inp_quiet [Consumer, Consumer, Worker, Worker, Foreign other_record]) init)
       = [(''12:00:01 - INFO - Other job'', Some [''/srv/app/output/a.wav''])]
   \<and> take 1 ''a.wav'' \<noteq> ''/'' \<and> ''..'' \<notin> set (parts (parse_path ''a.wav''))
   \<and> rooted_under (BASE_OUTPUT_DIR inp_quiet) (joinpath (BASE_OUTPUT_DIR inp_quiet) ''a.wav'')"
proof -
  let ?sch = "[Consumer, Consumer, Worker, Worker, Foreign other_record]"
  have h: "proc_outcome inp_quiet = Returned (Some [''a.wav''])" by (simp add: inp_quiet_def)
  have g: "is_file inp_quiet" "no_close ?sch" by (simp_all add: inp_quiet_def no_close_def)
  have n: "take 1 ''a.wav'' \<noteq> ''/''" "''..'' \<notin> set (parts (parse_path ''a.wav''))"
    by (simp_all add: parse_path_def splitroot_def)
  have five: "replicate 5 Consumer = [Consumer, Consumer, Consumer, Consumer, Consumer]"
    by (simp add: eval_nat_numeral)
  have r: "read_on inp_quiet ?sch
       = [Consumer, Consumer, Worker, Worker,
          Consumer, Consumer, Consumer, Consumer, Consumer]"
    by (simp add: read_on_def exec_defs inp_quiet_def other_record_def queue_def five)
  have y: "yields (run inp_quiet
           (?sch @ [Consumer, Consumer, Worker, Worker,
                    Consumer, Consumer, Consumer, Consumer, Consumer]) init)
       = [(''12:00:01 - INFO - Other job'', Some [''/srv/app/output/a.wav''])]"
    by (simp add: exec_defs inp_quiet_def other_record_def joinpath_def parse_path_def
          splitroot_def path_str_def absolute_def is_absolute_def BASE_OUTPUT_DIR_def)
  show ?thesis
    using h g n r y artifact_paths_of_success[OF h, of ?sch]
    by simp
qed

end
